theory Spec2Isabelle
  imports Main "HOL-Library.AList"
begin

section \<open>Strings as the controller uses them\<close>

text \<open>
  \<^verbatim>\<open>String.prototype.split(sep)\<close> for a one-character separator: the pieces between the
  occurrences of the separator, so that \<^verbatim>\<open>"/a/b".split('/')\<close> is \<^verbatim>\<open>["", "a", "b"]\<close> and the
  empty string gives one empty piece.
\<close>

fun split :: "char \<Rightarrow> string \<Rightarrow> string list" where
  "split sep [] = [[]]"
| "split sep (c # cs) =
     (if c = sep then [] # split sep cs
      else (case split sep cs of
              [] \<Rightarrow> [[c]]
            | piece # pieces \<Rightarrow> (c # piece) # pieces))"

text \<open>\<^verbatim>\<open>Array.prototype.join(sep)\<close>.\<close>

fun join :: "char \<Rightarrow> string list \<Rightarrow> string" where
  "join sep [] = []"
| "join sep [piece] = piece"
| "join sep (piece # pieces) = piece @ sep # join sep pieces"

text \<open>
  \<^verbatim>\<open>_.initial(array, n)\<close> of lodash: all but the last \<open>n\<close> elements (none when the array has
  no more than \<open>n\<close>).
\<close>

definition initial :: "'a list \<Rightarrow> nat \<Rightarrow> 'a list" where
  "initial array n = take (length array - n) array"

text \<open>
  \<^verbatim>\<open>toUpperCase\<close> on one character, for the letters \<open>a\<close> to \<open>z\<close>; every other byte is left
  as it is.
\<close>

definition toUpperCase :: "char \<Rightarrow> char" where
  "toUpperCase c =
     (let n = of_char c :: nat in if 97 \<le> n \<and> n \<le> 122 then char_of (n - 32) else c)"

text \<open>\<^verbatim>\<open>string.charAt(0).toUpperCase() + string.substring(1)\<close>\<close>

fun capitalize :: "string \<Rightarrow> string" where
  "capitalize [] = []"
| "capitalize (c # cs) = toUpperCase c # cs"

definition splitShiftAndJoin :: "string \<Rightarrow> nat \<Rightarrow> string" where
  "splitShiftAndJoin path amount = join CHR ''/'' (initial (split CHR ''/'' path) amount)"

section \<open>The breadcrumb and UI stack builder of \<^verbatim>\<open>CatBaseDetailController\<close>\<close>

text \<open>
  An endpoint has a name and, unless it is a root, a parent endpoint; the chain of parents
  is finite. A parent object of the \<^verbatim>\<open>parents\<close> array is read through its \<^verbatim>\<open>name\<close> only.
\<close>

datatype endpoint = Endpoint (getEndpointName: string) (parentEndpoint: "endpoint option")

datatype parent = Parent (name: string)

record breadcrumb =
  title :: string
  url :: "string option"

record config =
  endpoint :: endpoint
  baseUrl :: string

text \<open>
  Reading \<^verbatim>\<open>parent.name\<close> when \<^verbatim>\<open>parents[count]\<close> is \<^verbatim>\<open>undefined\<close> throws a
  \<^verbatim>\<open>TypeError\<close>.
\<close>

datatype error = TypeError

text \<open>
  The \<^verbatim>\<open>while\<close> loop over the parent chain. Its state is the current endpoint, the running
  URL, the index into \<^verbatim>\<open>parents\<close> and the two arrays; \<^verbatim>\<open>unshift\<close> puts an entry in front.
  The loop runs while the current endpoint has a parent endpoint.
\<close>

fun parentLoop ::
  "endpoint \<Rightarrow> parent list \<Rightarrow> string \<Rightarrow> nat \<Rightarrow> breadcrumb list \<Rightarrow> breadcrumb list
     \<Rightarrow> error + (breadcrumb list \<times> breadcrumb list)" where
  "parentLoop (Endpoint currentName None) parents parentUrl count uiStack breadcrumbs =
     Inr (breadcrumbs, uiStack)"
| "parentLoop (Endpoint currentName (Some parentEp)) parents parentUrl count uiStack breadcrumbs =
     (if count < length parents then
        (let parent = parents ! count;
             parentUrl1 = splitShiftAndJoin parentUrl 1;
             detailBreadcrumb =
               \<lparr>title = name parent,
                url = Some (''#'' @ parentUrl1 @ ''?tab='' @ currentName @ ''s'')\<rparr>;
             parentUrl2 = splitShiftAndJoin parentUrl1 1;
             breadcrumb =
               \<lparr>title = capitalize (getEndpointName parentEp) @ ''s'',
                url = Some (''#'' @ parentUrl2)\<rparr>
         in parentLoop parentEp parents parentUrl2 (count + 1)
              (detailBreadcrumb # uiStack) (breadcrumb # detailBreadcrumb # breadcrumbs))
      else Inl TypeError)"

text \<open>
  The builder: the loop when the endpoint has a parent, one entry for the endpoint's own
  collection otherwise, and then the entry of the current item, which has no URL and whose
  title is \<^verbatim>\<open>'New'\<close> when the route's id is \<^verbatim>\<open>'new'\<close> and empty otherwise. The result is
  the pair of the breadcrumbs and the UI stack.
\<close>

definition buildBreadcrumbs ::
  "config \<Rightarrow> string \<Rightarrow> parent list \<Rightarrow> error + (breadcrumb list \<times> breadcrumb list)" where
  "buildBreadcrumbs cfg routeId parents =
     (let current = \<lparr>title = (if routeId = ''new'' then ''New'' else ''''), url = None\<rparr> in
      case parentEndpoint (endpoint cfg) of
        Some _ \<Rightarrow>
          (case parentLoop (endpoint cfg) parents (baseUrl cfg) 0 [] [] of
             Inl e \<Rightarrow> Inl e
           | Inr (breadcrumbs, uiStack) \<Rightarrow> Inr (breadcrumbs @ [current], uiStack))
      | None \<Rightarrow>
          Inr ([\<lparr>title = capitalize (getEndpointName (endpoint cfg)) @ ''s'',
                 url = Some (''#'' @ baseUrl cfg)\<rparr>] @ [current], []))"

text \<open>The number of ancestor levels of an endpoint.\<close>

fun levels :: "endpoint \<Rightarrow> nat" where
  "levels (Endpoint n None) = 0"
| "levels (Endpoint n (Some p)) = Suc (levels p)"

section \<open>What an object literal inherits\<close>

text \<open>
  The controller and the provider use object literals \<^verbatim>\<open>{}\<close> as dictionaries and read them
  with \<^verbatim>\<open>object[key]\<close>. Such an object has \<^verbatim>\<open>Object.prototype\<close> as its prototype: under a
  key that it does not own, the read gives the member of \<^verbatim>\<open>Object.prototype\<close> of that name
  when there is one, and \<^verbatim>\<open>undefined\<close> otherwise. The members are functions, but for
  \<^verbatim>\<open>__proto__\<close>, under which the read gives the prototype itself and an assignment replaces
  the prototype and creates no property. These are the names of the members, those of
  ECMAScript 5 and the accessors that the browsers add.
\<close>

definition objectPrototypeNames :: "string list" where
  "objectPrototypeNames =
     [''constructor'', ''toString'', ''toLocaleString'', ''valueOf'', ''hasOwnProperty'',
      ''isPrototypeOf'', ''propertyIsEnumerable'', ''__defineGetter__'', ''__defineSetter__'',
      ''__lookupGetter__'', ''__lookupSetter__'', ''__proto__'']"

text \<open>
  Arrays and functions have more members that they do not own as enumerable properties:
  an array has \<^verbatim>\<open>length\<close> and the members of \<^verbatim>\<open>Array.prototype\<close>, a function has \<^verbatim>\<open>length\<close>,
  \<^verbatim>\<open>name\<close>, \<^verbatim>\<open>prototype\<close>, \<^verbatim>\<open>arguments\<close>, \<^verbatim>\<open>caller\<close> and the members of \<^verbatim>\<open>Function.prototype\<close>.
\<close>

definition arrayMemberNames :: "string list" where
  "arrayMemberNames =
     [''length'', ''concat'', ''copyWithin'', ''entries'', ''every'', ''fill'', ''filter'',
      ''find'', ''findIndex'', ''findLast'', ''findLastIndex'', ''flat'', ''flatMap'',
      ''forEach'', ''includes'', ''indexOf'', ''join'', ''keys'', ''lastIndexOf'', ''map'',
      ''pop'', ''push'', ''reduce'', ''reduceRight'', ''reverse'', ''shift'', ''slice'',
      ''some'', ''sort'', ''splice'', ''toReversed'', ''toSorted'', ''toSpliced'', ''unshift'',
      ''values'', ''with'', ''at'']"

definition functionMemberNames :: "string list" where
  "functionMemberNames =
     [''length'', ''name'', ''prototype'', ''arguments'', ''caller'', ''apply'', ''bind'',
      ''call'']"

section \<open>The save callbacks of \<^verbatim>\<open>CatBaseDetailController\<close>\<close>

text \<open>
  The object shown on a detail page, as far as the controller reads it: its \<^verbatim>\<open>id\<close>, its
  \<^verbatim>\<open>name\<close> (empty when it has none) and the result of its \<^verbatim>\<open>breadcrumbTitle()\<close> method
  when it has one.
\<close>

record detail =
  detailId :: string
  detailName :: string
  breadcrumbTitle :: "string option"

text \<open>One entry of \<^verbatim>\<open>response.data.fieldErrors\<close>.\<close>

record fieldError =
  field :: string
  message :: string

text \<open>
  The rejection of \<^verbatim>\<open>endpoint.save\<close>: the callback reads \<^verbatim>\<open>response.data.fieldErrors\<close>.
  The \<^verbatim>\<open>data\<close> of the response is \<open>None\<close> when it is \<^verbatim>\<open>undefined\<close> or \<^verbatim>\<open>null\<close>, and its
  \<^verbatim>\<open>fieldErrors\<close> are an array or are missing.
\<close>

record responseData =
  fieldErrors :: "fieldError list option"

record response =
  data :: "responseData option"

datatype outcome = Resolved detail | Rejected response

text \<open>
  The object \<^verbatim>\<open>fieldErrors\<close> built by the rejection callback, an object literal: its own
  properties, the keys in the order of their creation, each with its array of messages.
\<close>

type_synonym fieldErrorMap = "(string \<times> string list) list"

datatype event = FormReset | FieldErrorsEvent fieldErrorMap

text \<open>
  The scope fields the callbacks read and write (\<^verbatim>\<open>$fieldErrors\<close> is \<open>None\<close> when it is
  \<^verbatim>\<open>undefined\<close>), the events broadcast on the scope, and what the callbacks ask of the
  collaborators: \<^verbatim>\<open>$globalMessages.clearMessages()\<close>, \<^verbatim>\<open>$location.path(...)\<close> and
  \<^verbatim>\<open>$breadcrumbs.replaceLast(...)\<close>.
\<close>

record scope =
  scopeDetail :: "detail option"
  editDetail :: "detail option"
  scopeFieldErrors :: "fieldErrorMap option"
  exists :: bool
  broadcasts :: "event list"
  messagesCleared :: bool
  locationPath :: "string option"
  lastBreadcrumb :: "breadcrumb option"

text \<open>\<^verbatim>\<open>$scope.title\<close>: the breadcrumb title, else the name, else the id.\<close>

definition scopeTitle :: "scope \<Rightarrow> string" where
  "scopeTitle sc =
     (case scopeDetail sc of
        None \<Rightarrow> []
      | Some d \<Rightarrow>
          (case breadcrumbTitle d of
             Some t \<Rightarrow> t
           | None \<Rightarrow> (if detailName d \<noteq> [] then detailName d else detailId d)))"

definition update :: "scope \<Rightarrow> scope" where
  "update sc = sc\<lparr>lastBreadcrumb := Some \<lparr>title = scopeTitle sc, url = None\<rparr>\<rparr>"

text \<open>
  The body of the \<^verbatim>\<open>_.forEach\<close> callback, for one field error:
  \<^verbatim>\<open>fieldErrors[f] = fieldErrors[f] || []\<close> and then \<^verbatim>\<open>fieldErrors[f].push(message)\<close>.
  When the object owns the key, the read gives its array of messages. When it does not and
  the key is the name of a member of \<^verbatim>\<open>Object.prototype\<close>, the read gives that member, which
  is not \<^verbatim>\<open>undefined\<close> and has no \<^verbatim>\<open>push\<close>: the call of \<^verbatim>\<open>push\<close> throws a \<^verbatim>\<open>TypeError\<close>.
  Otherwise the read gives \<^verbatim>\<open>undefined\<close> and the key is created with an empty array.
\<close>

definition groupStep :: "fieldErrorMap \<Rightarrow> fieldError \<Rightarrow> error + fieldErrorMap" where
  "groupStep acc fe =
     (case map_of acc (field fe) of
        Some ms \<Rightarrow> Inr (AList.update (field fe) (ms @ [message fe]) acc)
      | None \<Rightarrow>
          if field fe \<in> set objectPrototypeNames then Inl TypeError
          else Inr (AList.update (field fe) [message fe] (AList.update (field fe) [] acc)))"

text \<open>The loop of \<^verbatim>\<open>_.forEach\<close>, which a throw of the callback ends.\<close>

fun groupByField :: "fieldError list \<Rightarrow> fieldErrorMap \<Rightarrow> error + fieldErrorMap" where
  "groupByField [] acc = Inr acc"
| "groupByField (fe # rest) acc =
     (case groupStep acc fe of
        Inl e \<Rightarrow> Inl e
      | Inr acc' \<Rightarrow> groupByField rest acc')"

text \<open>
  \<^verbatim>\<open>$scope.save\<close>, given how the promise of \<^verbatim>\<open>endpoint.save($scope.editDetail)\<close> settles:
  the success callback and the rejection callback. The rejection callback throws a
  \<^verbatim>\<open>TypeError\<close> when the response has no \<^verbatim>\<open>data\<close> and when the grouping throws; it writes to
  the scope only after the grouping, so a throw leaves the scope as it was.
\<close>

fun save :: "string \<Rightarrow> outcome \<Rightarrow> scope \<Rightarrow> error + scope" where
  "save base (Resolved d) sc =
     (let sc1 = sc\<lparr>messagesCleared := True, scopeFieldErrors := None\<rparr> in
      if \<not> exists sc1 then
        Inr (sc1\<lparr>broadcasts := broadcasts sc1 @ [FormReset],
                 locationPath := Some (base @ ''/'' @ detailId d)\<rparr>)
      else Inr (update (sc1\<lparr>editDetail := None, scopeDetail := Some d\<rparr>)))"
| "save base (Rejected resp) sc =
     (case data resp of
        None \<Rightarrow> Inl TypeError
      | Some d \<Rightarrow>
          (case fieldErrors d of
             None \<Rightarrow> Inr (sc\<lparr>scopeFieldErrors := None\<rparr>)
           | Some errs \<Rightarrow>
               (case groupByField errs [] of
                  Inl e \<Rightarrow> Inl e
                | Inr grouped \<Rightarrow>
                    Inr (sc\<lparr>scopeFieldErrors := Some grouped,
                            broadcasts := broadcasts sc @ [FieldErrorsEvent grouped]\<rparr>))))"

text \<open>A rejection with two errors of one field and one of another, and a scope in edit mode.\<close>

definition exampleErrors :: "fieldError list" where
  "exampleErrors =
     [\<lparr>field = ''name'', message = ''required''\<rparr>,
      \<lparr>field = ''size'', message = ''too small''\<rparr>,
      \<lparr>field = ''name'', message = ''too short''\<rparr>]"

definition exampleScope :: scope where
  "exampleScope =
     \<lparr>scopeDetail = Some \<lparr>detailId = ''7'', detailName = ''Bolt'', breadcrumbTitle = None\<rparr>,
      editDetail = Some \<lparr>detailId = ''7'', detailName = [], breadcrumbTitle = None\<rparr>,
      scopeFieldErrors = Some [],
      exists = True,
      broadcasts = [],
      messagesCleared = False,
      locationPath = None,
      lastBreadcrumb = Some \<lparr>title = ''Bolt'', url = None\<rparr>\<rparr>"

section \<open>JavaScript objects in a store\<close>

text \<open>
  A value is a primitive or a reference to an object of the store. The configuration values
  are scalars, arrays and nested mappings; functions are objects as well. An object is a
  plain object, an array or a function, with its own enumerable properties in the order of
  their creation; the elements of an array are its properties \<open>0\<close>, \<open>1\<close>, ... Numbers are
  integers here.
\<close>

type_synonym addr = nat

datatype val = Undefined | Null | Bool bool | Num int | Str string | Ref addr

datatype kind = PlainObject | ArrayObject | FunctionObject

datatype obj = Obj (kind: kind) (props: "(string \<times> val) list")

type_synonym heap = "addr \<Rightarrow> obj"

definition isUndefined :: "val \<Rightarrow> bool" where
  "isUndefined v = (v = Undefined)"

text \<open>
  \<^verbatim>\<open>_.isObject\<close>: true of every object, arrays and functions included, and of no
  primitive.
\<close>

fun isObject :: "val \<Rightarrow> bool" where
  "isObject (Ref a) = True"
| "isObject v = False"

text \<open>
  \<^verbatim>\<open>_.keys(object)\<close>, and \<^verbatim>\<open>object[key]\<close> and \<^verbatim>\<open>object[key] = value\<close> on the own enumerable
  properties. (An object of the store also has the members named by \<open>memberNames\<close>, which it
  inherits or which are not enumerable. Where an object does not own such a name as an
  enumerable property, \<open>getProp\<close> and \<open>putProp\<close> do not give what the object does under it;
  the theorems on the merge in general are about merges that read no target under such a
  name, see \<open>ordinaryKeys\<close>.)
\<close>

definition memberNames :: "kind \<Rightarrow> string list" where
  "memberNames k =
     (case k of
        PlainObject \<Rightarrow> objectPrototypeNames
      | ArrayObject \<Rightarrow> objectPrototypeNames @ arrayMemberNames
      | FunctionObject \<Rightarrow> objectPrototypeNames @ functionMemberNames)"

definition keys :: "heap \<Rightarrow> addr \<Rightarrow> string list" where
  "keys h a = map fst (props (h a))"

definition getProp :: "heap \<Rightarrow> addr \<Rightarrow> string \<Rightarrow> val" where
  "getProp h a k = (case map_of (props (h a)) k of Some v \<Rightarrow> v | None \<Rightarrow> Undefined)"

definition putProp :: "heap \<Rightarrow> addr \<Rightarrow> string \<Rightarrow> val \<Rightarrow> heap" where
  "putProp h a k v = h(a := Obj (kind (h a)) (AList.update k v (props (h a))))"

section \<open>\<^verbatim>\<open>assignDeep\<close> and the select configuration service\<close>

text \<open>
  \<^verbatim>\<open>_.assign(target, source, callback)\<close> of lodash 2: the own enumerable keys of the source
  are taken once, and for each of them, in order,
  \<^verbatim>\<open>result[index] = callback(result[index], iterable[index])\<close>; the target is returned. A
  source that is not an object is skipped. The callback may change the store, and may fail
  to return (\<open>None\<close>).
\<close>

type_synonym callback = "heap \<Rightarrow> val \<Rightarrow> val \<Rightarrow> (heap \<times> val) option"

fun assignKeys :: "callback \<Rightarrow> addr \<Rightarrow> addr \<Rightarrow> string list \<Rightarrow> heap \<Rightarrow> heap option" where
  "assignKeys cb result iterable [] h = Some h"
| "assignKeys cb result iterable (index # ownProps) h =
     (case cb h (getProp h result index) (getProp h iterable index) of
        None \<Rightarrow> None
      | Some (h', v) \<Rightarrow> assignKeys cb result iterable ownProps (putProp h' result index v))"

definition assign :: "callback \<Rightarrow> heap \<Rightarrow> addr \<Rightarrow> val \<Rightarrow> (heap \<times> val) option" where
  "assign cb h target source =
     (case source of
        Ref iterable \<Rightarrow>
          (case assignKeys cb target iterable (keys h iterable) h of
             None \<Rightarrow> None
           | Some h' \<Rightarrow> Some (h', Ref target))
      | _ \<Rightarrow> Some (h, Ref target))"

text \<open>
  \<^verbatim>\<open>assignDeep(target, source)\<close>. Its callback merges when \<^verbatim>\<open>_.isObject\<close> holds of both
  values, that is, when the target's value is a reference and the source's value is one,
  and gives the source's value otherwise. The recursion follows the objects of the store,
  which need not end; the first argument bounds the depth of the calls, and \<open>None\<close> is a
  call that needs more.
\<close>

fun assignDeep :: "nat \<Rightarrow> heap \<Rightarrow> addr \<Rightarrow> val \<Rightarrow> (heap \<times> val) option" where
  "assignDeep 0 h target source = None"
| "assignDeep (Suc n) h target source =
     assign
       (\<lambda>h targetProperty sourceProperty.
          (case targetProperty of
             Ref t \<Rightarrow>
               (if isObject sourceProperty then assignDeep n h t sourceProperty
                else Some (h, sourceProperty))
           | _ \<Rightarrow> Some (h, sourceProperty)))
       h target source"

text \<open>
  The provider and the service share \<^verbatim>\<open>configs\<close>, an object literal. The state is the
  store, the next free address and the registry: \<open>configs\<close> holds the own properties of
  \<^verbatim>\<open>configs\<close>, the registered configurations by name, and \<open>inherited\<close> holds the members of
  \<^verbatim>\<open>Object.prototype\<close> by name, which are objects of the store: the built-in functions, and
  under \<^verbatim>\<open>__proto__\<close> the prototype itself. An assignment \<^verbatim>\<open>configs['__proto__'] = c\<close> creates
  no property and makes \<open>c\<close> the prototype of the registry; \<open>configs\<close> holds that prototype
  under \<^verbatim>\<open>__proto__\<close>, where a read gives it back.
\<close>

record state =
  heap :: heap
  nextAddr :: addr
  configs :: "string \<rightharpoonup> addr"
  inherited :: "string \<rightharpoonup> addr"

text \<open>
  The read \<^verbatim>\<open>configs[name]\<close>: the own property; else, when the prototype of the registry has
  been replaced, the property of that prototype, which inherits from \<^verbatim>\<open>Object.prototype\<close> in
  its turn; else the member of \<^verbatim>\<open>Object.prototype\<close>; else \<^verbatim>\<open>undefined\<close>. (The prototype is
  read as a plain object is: what an array or a function has beyond that is left out.)
\<close>

definition readConfigs :: "state \<Rightarrow> string \<Rightarrow> val" where
  "readConfigs s nm =
     (case configs s nm of
        Some c \<Rightarrow> Ref c
      | None \<Rightarrow>
          (case configs s ''__proto__'' of
             Some p \<Rightarrow>
               (if nm \<in> set (keys (heap s) p) then getProp (heap s) p nm
                else (case inherited s nm of Some b \<Rightarrow> Ref b | None \<Rightarrow> Undefined))
           | None \<Rightarrow> (case inherited s nm of Some b \<Rightarrow> Ref b | None \<Rightarrow> Undefined)))"

text \<open>
  \<^verbatim>\<open>CatSelectConfigServiceProvider.config(name, config)\<close>; the argument is \<open>None\<close> when it is
  \<^verbatim>\<open>undefined\<close> and a configuration object otherwise. It returns \<^verbatim>\<open>configs[name]\<close>.
\<close>

definition config :: "state \<Rightarrow> string \<Rightarrow> addr option \<Rightarrow> state \<times> val" where
  "config s nm cfg =
     (let s' = (if cfg \<noteq> None then s\<lparr>configs := (configs s)(nm := cfg)\<rparr> else s)
      in (s', readConfigs s' nm))"

text \<open>
  A new object, and \<^verbatim>\<open>_.clone(value)\<close> of lodash 2, the shallow copy: of a plain object or an
  array, a new object of the same kind with the same properties, so that the nested objects
  are shared with the original; a function and a primitive are returned as they are.
\<close>

definition alloc :: "state \<Rightarrow> obj \<Rightarrow> state \<times> addr" where
  "alloc s ob = (s\<lparr>heap := (heap s)(nextAddr s := ob), nextAddr := Suc (nextAddr s)\<rparr>, nextAddr s)"

definition clone :: "state \<Rightarrow> val \<Rightarrow> state \<times> val" where
  "clone s v =
     (case v of
        Ref a \<Rightarrow>
          (if kind (heap s a) = FunctionObject then (s, Ref a)
           else (case alloc s (heap s a) of (s', b) \<Rightarrow> (s', Ref b)))
      | _ \<Rightarrow> (s, v))"

text \<open>What \<^verbatim>\<open>||\<close> takes for true.\<close>

fun truthy :: "val \<Rightarrow> bool" where
  "truthy Undefined = False"
| "truthy Null = False"
| "truthy (Bool b) = b"
| "truthy (Num n) = (n \<noteq> 0)"
| "truthy (Str str) = (str \<noteq> [])"
| "truthy (Ref a) = True"

text \<open>
  \<^verbatim>\<open>CatSelectConfigService.getConfig(name, options)\<close>. The target of the merge is
  \<^verbatim>\<open>_.clone(config) || {}\<close>. It is an object but when \<^verbatim>\<open>configs[name]\<close> is a primitive that
  \<^verbatim>\<open>||\<close> takes for true, which can only come from a replaced prototype: \<^verbatim>\<open>_.assign\<close> then
  returns that primitive, on which its assignments have no effect.
\<close>

definition getConfig :: "nat \<Rightarrow> state \<Rightarrow> string \<Rightarrow> val \<Rightarrow> (state \<times> val) option" where
  "getConfig fuel s nm options =
     (let cfg = readConfigs s nm in
      if isUndefined cfg \<and> isUndefined options then Some (s, Undefined)
      else
        (let (s1, copy) = clone s cfg;
             (s2, target) =
               (if truthy copy then (s1, copy)
                else (case alloc s1 (Obj PlainObject []) of (s', b) \<Rightarrow> (s', Ref b)))
         in case target of
              Ref t \<Rightarrow>
                (case assignDeep fuel (heap s2) t options of
                   None \<Rightarrow> None
                 | Some (h', r) \<Rightarrow> Some (s2\<lparr>heap := h'\<rparr>, r))
            | _ \<Rightarrow> Some (s2, target)))"

section \<open>Deep equality with a literal\<close>

text \<open>
  A configuration literal: a primitive, or an object of some kind with its properties. A
  value of the store is deep-equal to a literal when it is that primitive, or refers to an
  object of that kind with those keys, in that order, whose property values are deep-equal
  to the literal's.
\<close>

datatype tree = Leaf val | Node kind "(string \<times> tree) list"

fun repr :: "heap \<Rightarrow> val \<Rightarrow> tree \<Rightarrow> bool" where
  "repr h v (Leaf p) = (v = p \<and> \<not> isObject p)"
| "repr h v (Node k ps) =
     (case v of
        Ref a \<Rightarrow>
          kind (h a) = k \<and> keys h a = map fst ps \<and> distinct (map fst ps) \<and>
          (\<forall>(key, t) \<in> set ps. repr h (getProp h a key) t)
      | _ \<Rightarrow> False)"

text \<open>The objects a value reaches along a literal, and the depth of a literal.\<close>

fun addrs :: "heap \<Rightarrow> val \<Rightarrow> tree \<Rightarrow> addr list" where
  "addrs h v (Leaf p) = []"
| "addrs h v (Node k ps) =
     (case v of
        Ref a \<Rightarrow> a # concat (map (\<lambda>(key, t). addrs h (getProp h a key) t) ps)
      | _ \<Rightarrow> [])"

fun depth :: "tree \<Rightarrow> nat" where
  "depth (Leaf p) = 0"
| "depth (Node k ps) = Suc (fold max (map (\<lambda>(key, t). depth t) ps) 0)"

text \<open>
  The scenarios of the service. In every store the built-in functions that are the members
  of \<^verbatim>\<open>Object.prototype\<close> are the objects at 4 to 14, and \<^verbatim>\<open>Object.prototype\<close> itself, which
  has no enumerable property, is the object at 15. In \<open>mergeStore\<close> the object at 0 is
  \<open>{a: {x: 0, y: 2}}\<close> and the object at 2 is \<open>{a: {x: 1}}\<close>; in \<open>arrayStore\<close> the object at 0
  is \<open>{a: {x: 1}}\<close>, in \<open>scalarStore\<close> it is \<open>{a: 5}\<close>, and in both the object at 2 is
  \<open>{a: [1, 2]}\<close>. In \<open>sharedStore\<close> the object at 1 is \<open>{a: {z: 1}}\<close> and the object at 0 holds
  that very object: it is \<open>{a: {a: {z: 1}}}\<close>. The state is that of a provider that has
  registered the object at 0 under a name, or that has registered nothing.
\<close>

definition objectPrototype :: "string \<rightharpoonup> addr" where
  "objectPrototype = map_of (zip objectPrototypeNames [4, 5, 6, 7, 8, 9, 10, 11, 12, 13, 14, 15])"

definition runtimeStore :: heap where
  "runtimeStore = (\<lambda>a. if 4 \<le> a \<and> a < 15 then Obj FunctionObject [] else Obj PlainObject [])"

definition mergeStore :: heap where
  "mergeStore =
     runtimeStore
       (0 := Obj PlainObject [(''a'', Ref 1)],
        1 := Obj PlainObject [(''x'', Num 0), (''y'', Num 2)],
        2 := Obj PlainObject [(''a'', Ref 3)],
        3 := Obj PlainObject [(''x'', Num 1)])"

definition arrayStore :: heap where
  "arrayStore =
     runtimeStore
       (0 := Obj PlainObject [(''a'', Ref 1)],
        1 := Obj PlainObject [(''x'', Num 1)],
        2 := Obj PlainObject [(''a'', Ref 3)],
        3 := Obj ArrayObject [(''0'', Num 1), (''1'', Num 2)])"

definition scalarStore :: heap where
  "scalarStore =
     runtimeStore
       (0 := Obj PlainObject [(''a'', Num 5)],
        2 := Obj PlainObject [(''a'', Ref 3)],
        3 := Obj ArrayObject [(''0'', Num 1), (''1'', Num 2)])"

definition sharedStore :: heap where
  "sharedStore =
     runtimeStore
       (0 := Obj PlainObject [(''a'', Ref 1)],
        1 := Obj PlainObject [(''a'', Ref 2)],
        2 := Obj PlainObject [(''z'', Num 1)])"

definition registered :: "heap \<Rightarrow> string \<Rightarrow> state" where
  "registered h nm = \<lparr>heap = h, nextAddr = 16, configs = [nm \<mapsto> 0], inherited = objectPrototype\<rparr>"

definition unregistered :: "heap \<Rightarrow> state" where
  "unregistered h = \<lparr>heap = h, nextAddr = 16, configs = Map.empty, inherited = objectPrototype\<rparr>"

section \<open>The merge on literals\<close>

text \<open>
  What \<^verbatim>\<open>assignDeep(target, source)\<close> makes of the target, on literals: for each key of the
  source, in order, the target's value at the key is merged with the source's when both are
  objects and is replaced by the source's otherwise. A source that is not an object leaves
  the target as it is.
\<close>

fun merge :: "tree \<Rightarrow> tree \<Rightarrow> tree" where
  "merge (Node k tps) (Node k' sps) =
     Node k
       (fold
          (\<lambda>(key, st) acc.
             AList.update key
               (case map_of acc key of
                  Some (Node kc pc) \<Rightarrow>
                    (case st of Node ks ps \<Rightarrow> merge (Node kc pc) st | Leaf p \<Rightarrow> st)
                | _ \<Rightarrow> st)
               acc)
          sps tps)"
| "merge t s = t"

text \<open>
  The properties of the target object itself after the call: at each key of the source, the
  target's own reference when both values are objects, the source's value otherwise.
\<close>

fun overlayProps :: "(string \<times> val) list \<Rightarrow> (string \<times> val) list \<Rightarrow> (string \<times> val) list" where
  "overlayProps tp [] = tp"
| "overlayProps tp ((key, sv) # sp) =
     overlayProps
       (AList.update key
          (case map_of tp key of
             Some (Ref tc) \<Rightarrow> (if isObject sv then Ref tc else sv)
           | _ \<Rightarrow> sv)
          tp)
       sp"

text \<open>
  A target that already holds a source, along the literal of the source: at each key of
  the source the target has the source's value, or both are objects and the target's holds
  the source's.
\<close>

fun merged :: "heap \<Rightarrow> addr \<Rightarrow> val \<Rightarrow> tree \<Rightarrow> bool" where
  "merged h t sv (Leaf p) = True"
| "merged h t sv (Node k sps) =
     (case sv of
        Ref s \<Rightarrow>
          (\<forall>(key, st) \<in> set sps.
             key \<in> set (keys h t) \<and>
             (case getProp h t key of
                Ref tc \<Rightarrow>
                  (case getProp h s key of
                     Ref sc \<Rightarrow> merged h tc (Ref sc) st
                   | sv' \<Rightarrow> False)
              | tv \<Rightarrow> tv = getProp h s key))
      | _ \<Rightarrow> True)"

text \<open>One step of the merge on literals, and the callback of \<^verbatim>\<open>assignDeep\<close> at a depth.\<close>

definition mergeStep :: "string \<times> tree \<Rightarrow> (string \<times> tree) list \<Rightarrow> (string \<times> tree) list" where
  "mergeStep e acc =
     (case e of
        (key, st) \<Rightarrow>
          AList.update key
            (case map_of acc key of
               Some (Node kc pc) \<Rightarrow>
                 (case st of Node ks ps \<Rightarrow> merge (Node kc pc) st | Leaf p \<Rightarrow> st)
             | _ \<Rightarrow> st)
            acc)"

definition deepCallback :: "nat \<Rightarrow> callback" where
  "deepCallback n =
     (\<lambda>h targetProperty sourceProperty.
        (case targetProperty of
           Ref t \<Rightarrow>
             (if isObject sourceProperty then assignDeep n h t sourceProperty
              else Some (h, sourceProperty))
         | _ \<Rightarrow> Some (h, sourceProperty)))"

text \<open>The condition of \<open>merged\<close> at one key of the source.\<close>

definition mergedAt :: "heap \<Rightarrow> addr \<Rightarrow> addr \<Rightarrow> string \<Rightarrow> tree \<Rightarrow> bool" where
  "mergedAt h t s key st =
     (key \<in> set (keys h t) \<and>
      (case getProp h t key of
         Ref tc \<Rightarrow>
           (case getProp h s key of
              Ref sc \<Rightarrow> merged h tc (Ref sc) st
            | sv' \<Rightarrow> False)
       | tv \<Rightarrow> tv = getProp h s key))"

text \<open>
  The contract of \<^verbatim>\<open>assignDeep\<close> on unshared literals. Before the call the target and the
  source are deep-equal to literals and no object is met twice along them. The call then
  returns the target; it changes no object but those of the target; the target is deep-equal
  to the merge of the two literals, along which it meets only objects of the target and of
  the source; it holds the source; and the target object has the properties of the overlay.
\<close>

definition mergePre :: "heap \<Rightarrow> addr \<Rightarrow> tree \<Rightarrow> val \<Rightarrow> tree \<Rightarrow> bool" where
  "mergePre h t tt sv ts =
     (repr h (Ref t) tt \<and> repr h sv ts \<and> distinct (addrs h (Ref t) tt @ addrs h sv ts))"

definition mergePost :: "nat \<Rightarrow> heap \<Rightarrow> addr \<Rightarrow> tree \<Rightarrow> val \<Rightarrow> tree \<Rightarrow> bool" where
  "mergePost n h t tt sv ts =
     (\<exists>h'. assignDeep n h t sv = Some (h', Ref t) \<and>
        (\<forall>a. a \<notin> set (addrs h (Ref t) tt) \<longrightarrow> h' a = h a) \<and>
        repr h' (Ref t) (merge tt ts) \<and>
        set (addrs h' (Ref t) (merge tt ts)) \<subseteq> set (addrs h (Ref t) tt) \<union> set (addrs h sv ts) \<and>
        merged h' t sv ts \<and>
        h' t = Obj (kind (h t)) (overlayProps (props (h t)) (case sv of Ref s \<Rightarrow> props (h s) | _ \<Rightarrow> [])))"

text \<open>
  The same for the loop of \<^verbatim>\<open>_.assign\<close> over the remaining keys of the source: \<open>cur\<close> holds
  the literals of the target's properties so far, \<open>rest\<close> the remaining properties of the
  source, and \<open>B key\<close> bounds the objects met below the key on either side.
\<close>

definition loopPre ::
  "nat \<Rightarrow> (string \<Rightarrow> addr set) \<Rightarrow> addr \<Rightarrow> addr \<Rightarrow> kind \<Rightarrow> heap \<Rightarrow>
     (string \<times> tree) list \<Rightarrow> (string \<times> tree) list \<Rightarrow> bool" where
  "loopPre n B t s k h cur rest =
     (kind (h t) = k \<and> keys h t = map fst cur \<and> distinct (map fst cur) \<and>
      (\<forall>key tr. map_of cur key = Some tr \<longrightarrow>
         repr h (getProp h t key) tr \<and> set (addrs h (getProp h t key) tr) \<subseteq> B key) \<and>
      (\<forall>key tr st. map_of cur key = Some tr \<longrightarrow> (key, st) \<in> set rest \<longrightarrow>
         distinct (addrs h (getProp h t key) tr) \<and>
         set (addrs h (getProp h t key) tr) \<inter> set (addrs h (getProp h s key) st) = {}) \<and>
      (\<forall>key st. (key, st) \<in> set rest \<longrightarrow>
         repr h (getProp h s key) st \<and> distinct (addrs h (getProp h s key) st) \<and>
         set (addrs h (getProp h s key) st) \<subseteq> B key \<and> depth st < n) \<and>
      distinct (map fst rest))"

definition loopPost ::
  "(string \<Rightarrow> addr set) \<Rightarrow> addr \<Rightarrow> addr \<Rightarrow> kind \<Rightarrow> heap \<Rightarrow>
     (string \<times> tree) list \<Rightarrow> (string \<times> tree) list \<Rightarrow> heap \<Rightarrow> bool" where
  "loopPost B t s k h cur rest h' =
     (kind (h' t) = k \<and> keys h' t = map fst (fold mergeStep rest cur) \<and>
      distinct (map fst (fold mergeStep rest cur)) \<and>
      (\<forall>key tr. map_of (fold mergeStep rest cur) key = Some tr \<longrightarrow>
         repr h' (getProp h' t key) tr \<and> set (addrs h' (getProp h' t key) tr) \<subseteq> B key) \<and>
      (\<forall>a. a \<noteq> t \<longrightarrow>
         (\<forall>key tr. map_of cur key = Some tr \<longrightarrow> key \<in> fst ` set rest \<longrightarrow>
            a \<notin> set (addrs h (getProp h t key) tr)) \<longrightarrow>
         h' a = h a) \<and>
      props (h' t) = overlayProps (props (h t)) (map (\<lambda>(key, st). (key, getProp h s key)) rest) \<and>
      (\<forall>(key, st) \<in> set rest. mergedAt h' t s key st))"

text \<open>
  A call of \<^verbatim>\<open>getConfig\<close> on configurations as the registry is meant to hold them: the
  options are deep-equal to a literal \<open>to\<close> and, when a configuration is registered under
  the name, it is a plain object and deep-equal to a literal \<open>tc\<close>; no object is met twice
  along the two literals, and all of their objects are allocated.
\<close>

definition wellFormed :: "state \<Rightarrow> string \<Rightarrow> val \<Rightarrow> tree \<Rightarrow> tree \<Rightarrow> bool" where
  "wellFormed s nm options tc to =
     (repr (heap s) options to \<and>
      distinct (addrs (heap s) options to) \<and>
      (\<forall>a \<in> set (addrs (heap s) options to). a < nextAddr s) \<and>
      (case configs s nm of
         None \<Rightarrow> True
       | Some c \<Rightarrow>
           kind (heap s c) = PlainObject \<and>
           repr (heap s) (Ref c) tc \<and>
           distinct (addrs (heap s) (Ref c) tc @ addrs (heap s) options to) \<and>
           (\<forall>a \<in> set (addrs (heap s) (Ref c) tc). a < nextAddr s)))"

text \<open>
  A merge that reads its targets only under ordinary keys, on the literals of the target
  and of the source: at each key of the source, the target owns the key, and the same holds
  of the two values when both are objects; or the target does not own the key, and the key
  is not the name of a member of an object of the kind of the target.
\<close>

fun ordinaryKeys :: "tree \<Rightarrow> tree \<Rightarrow> bool" where
  "ordinaryKeys (Node k tps) (Node k' sps) =
     (\<forall>(key, st) \<in> set sps.
        (case map_of tps key of
           Some tt \<Rightarrow> ordinaryKeys tt st
         | None \<Rightarrow> key \<notin> set (memberNames k)))"
| "ordinaryKeys t s = True"

text \<open>
  A name under which the registry reads what the provider has put there: a configuration
  is registered under it, or the registry has its first prototype and inherits nothing
  under the name.
\<close>

definition ordinaryName :: "state \<Rightarrow> string \<Rightarrow> bool" where
  "ordinaryName s nm =
     (configs s nm \<noteq> None \<or> (configs s ''__proto__'' = None \<and> inherited s nm = None))"

text \<open>
  What the merge of \<^verbatim>\<open>getConfig\<close> starts from: the shallow copy of the registered
  configuration, or the empty object when none is registered; and its literal.
\<close>

definition initialTarget :: "state \<Rightarrow> string \<Rightarrow> obj" where
  "initialTarget s nm = (case configs s nm of Some c \<Rightarrow> heap s c | None \<Rightarrow> Obj PlainObject [])"

definition initialTree :: "state \<Rightarrow> string \<Rightarrow> tree \<Rightarrow> tree" where
  "initialTree s nm tc = (case configs s nm of Some c \<Rightarrow> tc | None \<Rightarrow> Node PlainObject [])"

section \<open>Breadcrumbs: the scenarios and the missing parents\<close>

lemma upper_w: "toUpperCase CHR ''w'' = CHR ''W''"
  by code_simp

lemma upper_g: "toUpperCase CHR ''g'' = CHR ''G''"
  by code_simp

lemma strip_widgets: "splitShiftAndJoin ''/gadgets/42/widgets'' (Suc 0) = ''/gadgets/42''"
  by code_simp

lemma strip_id: "splitShiftAndJoin ''/gadgets/42'' (Suc 0) = ''/gadgets''"
  by code_simp

text \<open>
  C6. Endpoint \<open>widget\<close> without a parent endpoint, base URL \<open>/widgets\<close>, and a route id
  other than \<open>new\<close>, so that the current label is empty: the breadcrumbs are the entry of the
  collection, titled \<open>Widgets\<close> with URL \<open>#/widgets\<close>, and the entry of the current item with
  the empty title and no URL; the UI stack is empty.
\<close>

theorem breadcrumbs_root_endpoint:
  "routeId \<noteq> ''new'' \<Longrightarrow>
   buildBreadcrumbs \<lparr>endpoint = Endpoint ''widget'' None, baseUrl = ''/widgets''\<rparr> routeId [] =
     Inr ([\<lparr>title = ''Widgets'', url = Some ''#/widgets''\<rparr>, \<lparr>title = '''', url = None\<rparr>], [])"
  by (simp add: buildBreadcrumbs_def upper_w)

theorem breadcrumbs_root_endpoint_witness:
  "''42'' \<noteq> ''new'' \<and>
   buildBreadcrumbs \<lparr>endpoint = Endpoint ''widget'' None, baseUrl = ''/widgets''\<rparr> ''42'' [] =
     Inr ([\<lparr>title = ''Widgets'', url = Some ''#/widgets''\<rparr>, \<lparr>title = '''', url = None\<rparr>], [])"
  using breadcrumbs_root_endpoint [of "''42''"] by simp

text \<open>
  C1, as the claim states it, fails: for endpoint \<open>widget\<close> with parent endpoint \<open>gadget\<close>,
  parents \<open>[{name: "Acme"}]\<close>, base URL \<open>/gadgets/42/widgets\<close> and the route id \<open>42\<close>, the
  builder does not return the four breadcrumbs of the claim. The branch of an endpoint with
  a parent adds no entry for the endpoint's own collection.
\<close>

theorem breadcrumbs_child_endpoint_not_four:
  "buildBreadcrumbs
     \<lparr>endpoint = Endpoint ''widget'' (Some (Endpoint ''gadget'' None)),
      baseUrl = ''/gadgets/42/widgets''\<rparr> ''42'' [Parent ''Acme'']
   \<noteq> Inr ([\<lparr>title = ''Gadgets'', url = Some ''#/gadgets''\<rparr>,
            \<lparr>title = ''Acme'', url = Some ''#/gadgets/42?tab=widgets''\<rparr>,
            \<lparr>title = ''Widgets'', url = Some ''#/gadgets/42/widgets''\<rparr>,
            \<lparr>title = '''', url = None\<rparr>],
           [\<lparr>title = ''Acme'', url = Some ''#/gadgets/42?tab=widgets''\<rparr>])"
  by code_simp

text \<open>
  C1, amended. For that call, with any route id other than \<open>new\<close>, the breadcrumbs are
  exactly three: the collection of the ancestor (\<open>Gadgets\<close>, \<open>#/gadgets\<close>), the parent's
  detail page with the tab of the current collection (\<open>Acme\<close>, \<open>#/gadgets/42?tab=widgets\<close>),
  and the current item with the empty title and no URL. The UI stack is the one entry of
  the parent's detail page. Two path segments are stripped per ancestor level.
\<close>

theorem breadcrumbs_child_endpoint:
  "routeId \<noteq> ''new'' \<Longrightarrow>
   buildBreadcrumbs
     \<lparr>endpoint = Endpoint ''widget'' (Some (Endpoint ''gadget'' None)),
      baseUrl = ''/gadgets/42/widgets''\<rparr> routeId [Parent ''Acme'']
   = Inr ([\<lparr>title = ''Gadgets'', url = Some ''#/gadgets''\<rparr>,
            \<lparr>title = ''Acme'', url = Some ''#/gadgets/42?tab=widgets''\<rparr>,
            \<lparr>title = '''', url = None\<rparr>],
           [\<lparr>title = ''Acme'', url = Some ''#/gadgets/42?tab=widgets''\<rparr>])"
  by (simp add: buildBreadcrumbs_def upper_g strip_widgets strip_id Let_def)

theorem breadcrumbs_child_endpoint_witness:
  "''42'' \<noteq> ''new'' \<and>
   buildBreadcrumbs
     \<lparr>endpoint = Endpoint ''widget'' (Some (Endpoint ''gadget'' None)),
      baseUrl = ''/gadgets/42/widgets''\<rparr> ''42'' [Parent ''Acme'']
   = Inr ([\<lparr>title = ''Gadgets'', url = Some ''#/gadgets''\<rparr>,
            \<lparr>title = ''Acme'', url = Some ''#/gadgets/42?tab=widgets''\<rparr>,
            \<lparr>title = '''', url = None\<rparr>],
           [\<lparr>title = ''Acme'', url = Some ''#/gadgets/42?tab=widgets''\<rparr>])"
  using breadcrumbs_child_endpoint [of "''42''"] by simp

lemma parentLoop_missing_parent:
  "count \<le> length parents \<Longrightarrow> length parents < count + levels e \<Longrightarrow>
   parentLoop e parents u count us bs = Inl TypeError"
  by (induction e parents u count us bs rule: parentLoop.induct) (auto simp: Let_def)

text \<open>
  C9. When \<open>parents\<close> has fewer entries than the endpoint has ancestor levels, the builder
  throws (the \<^verbatim>\<open>TypeError\<close> of reading \<^verbatim>\<open>name\<close> of \<^verbatim>\<open>undefined\<close>) and returns no breadcrumbs
  and no UI stack.
\<close>

theorem breadcrumbs_missing_parent_throws:
  "length parents < levels (endpoint cfg) \<Longrightarrow> buildBreadcrumbs cfg routeId parents = Inl TypeError"
proof -
  assume short: "length parents < levels (endpoint cfg)"
  obtain n p where ep: "endpoint cfg = Endpoint n p"
    by (cases "endpoint cfg")
  with short obtain q where p: "p = Some q"
    by (cases p) auto
  from short have "parentLoop (endpoint cfg) parents (baseUrl cfg) 0 [] [] = Inl TypeError"
    by (intro parentLoop_missing_parent) auto
  with ep p show ?thesis
    by (simp add: buildBreadcrumbs_def)
qed

theorem breadcrumbs_missing_parent_throws_witness:
  "length ([] :: parent list) < levels (Endpoint ''widget'' (Some (Endpoint ''gadget'' None))) \<and>
   buildBreadcrumbs
     \<lparr>endpoint = Endpoint ''widget'' (Some (Endpoint ''gadget'' None)),
      baseUrl = ''/gadgets/42/widgets''\<rparr> '''' [] = Inl TypeError"
  using breadcrumbs_missing_parent_throws
    [of "[]" "\<lparr>endpoint = Endpoint ''widget'' (Some (Endpoint ''gadget'' None)),
               baseUrl = ''/gadgets/42/widgets''\<rparr>" "''''"]
  by simp

section \<open>Field errors of a rejected save\<close>

lemma groupStep_ordinary:
  assumes "field fe \<notin> set objectPrototypeNames"
  shows "groupStep acc fe =
           Inr (AList.update (field fe)
                  ((case map_of acc (field fe) of Some ms \<Rightarrow> ms | None \<Rightarrow> []) @ [message fe]) acc)"
  using assms by (simp add: groupStep_def split: option.splits)

lemma map_of_update_messages:
  "map_of (AList.update k v acc) = (map_of acc)(k \<mapsto> v)"
  by (simp add: update_conv')

lemma groupByField_ordinary:
  assumes "\<forall>e \<in> set errs. field e \<notin> set objectPrototypeNames" and "distinct (map fst acc)"
  shows "\<exists>g. groupByField errs acc = Inr g \<and> distinct (map fst g) \<and>
           (\<forall>f. map_of g f =
                  (if f \<in> field ` set errs \<or> f \<in> dom (map_of acc)
                   then Some ((case map_of acc f of Some ms \<Rightarrow> ms | None \<Rightarrow> []) @
                              map message (filter (\<lambda>e. field e = f) errs))
                   else None))"
  using assms
proof (induction errs arbitrary: acc)
  case Nil
  then show ?case
    by (auto split: option.splits)
next
  case (Cons fe errs)
  define acc1 where
    "acc1 = AList.update (field fe)
              ((case map_of acc (field fe) of Some ms \<Rightarrow> ms | None \<Rightarrow> []) @ [message fe]) acc"
  from Cons.prems have step: "groupStep acc fe = Inr acc1"
    by (simp add: groupStep_ordinary acc1_def)
  have d1: "distinct (map fst acc1)"
    using Cons.prems(2) by (simp add: acc1_def distinct_update)
  have m1: "map_of acc1 =
              (map_of acc)(field fe \<mapsto>
                 (case map_of acc (field fe) of Some ms \<Rightarrow> ms | None \<Rightarrow> []) @ [message fe])"
    by (simp add: acc1_def map_of_update_messages)
  from Cons.prems have rest: "\<forall>e \<in> set errs. field e \<notin> set objectPrototypeNames"
    by simp
  from Cons.IH [OF rest d1] obtain g where
    g: "groupByField errs acc1 = Inr g" and dg: "distinct (map fst g)"
    and mg: "\<And>f. map_of g f =
                  (if f \<in> field ` set errs \<or> f \<in> dom (map_of acc1)
                   then Some ((case map_of acc1 f of Some ms \<Rightarrow> ms | None \<Rightarrow> []) @
                              map message (filter (\<lambda>e. field e = f) errs))
                   else None)"
    by blast
  have "groupByField (fe # errs) acc = Inr g"
    by (simp add: step g)
  moreover have "map_of g f =
                  (if f \<in> field ` set (fe # errs) \<or> f \<in> dom (map_of acc)
                   then Some ((case map_of acc f of Some ms \<Rightarrow> ms | None \<Rightarrow> []) @
                              map message (filter (\<lambda>e. field e = f) (fe # errs)))
                   else None)" for f
    unfolding mg m1 by (auto split: option.splits)
  ultimately show ?case
    using dg by blast
qed

text \<open>
  C5, as the claim states it, fails. A rejection whose field errors name the field
  \<^verbatim>\<open>constructor\<close> makes the callback throw: the new object \<^verbatim>\<open>fieldErrors\<close> inherits a function
  under that name, so no array is created and \<^verbatim>\<open>push\<close> is not there; \<^verbatim>\<open>$fieldErrors\<close> is not
  set.
\<close>

theorem save_rejected_inherited_field_throws:
  "save ''/widgets''
     (Rejected \<lparr>data = Some \<lparr>fieldErrors = Some [\<lparr>field = ''constructor'', message = ''invalid''\<rparr>]\<rparr>\<rparr>)
     exampleScope = Inl TypeError"
  by (simp add: groupStep_def objectPrototypeNames_def)

lemma save_rejected_without_data_throws:
  "data resp = None \<Longrightarrow> save base (Rejected resp) sc = Inl TypeError"
  by simp

text \<open>
  C5, amended. When the response has \<^verbatim>\<open>data\<close> with field errors and no field is named like a
  member of \<^verbatim>\<open>Object.prototype\<close>, \<^verbatim>\<open>$fieldErrors\<close> becomes an object with one key per field
  name, holding the messages of that field in the order in which they come in the response.
  When the response has \<^verbatim>\<open>data\<close> without field errors, \<^verbatim>\<open>$fieldErrors\<close> becomes \<^verbatim>\<open>undefined\<close>
  and nothing is grouped or broadcast. In both cases \<^verbatim>\<open>editDetail\<close> stays as it was.
\<close>

theorem save_rejected_groups_by_field:
  "(data resp = Some d \<and> fieldErrors d = Some errs \<and>
    (\<forall>e \<in> set errs. field e \<notin> set objectPrototypeNames) \<longrightarrow>
      (\<exists>sc' g. save base (Rejected resp) sc = Inr sc' \<and>
           scopeFieldErrors sc' = Some g \<and>
           distinct (map fst g) \<and>
           (\<forall>f. map_of g f =
                  (if f \<in> field ` set errs
                   then Some (map message (filter (\<lambda>e. field e = f) errs))
                   else None)) \<and>
           editDetail sc' = editDetail sc)) \<and>
   (data resp = Some d \<and> fieldErrors d = None \<longrightarrow>
      (\<exists>sc'. save base (Rejected resp) sc = Inr sc' \<and>
           scopeFieldErrors sc' = None \<and>
           broadcasts sc' = broadcasts sc \<and>
           editDetail sc' = editDetail sc))"
proof (intro conjI impI; elim conjE)
  assume dat: "data resp = Some d" and some: "fieldErrors d = Some errs"
    and ord: "\<forall>e \<in> set errs. field e \<notin> set objectPrototypeNames"
  from groupByField_ordinary [OF ord, of "[]"] obtain g where
    g: "groupByField errs [] = Inr g" and dg: "distinct (map fst g)"
    and mg: "\<And>f. map_of g f =
                  (if f \<in> field ` set errs
                   then Some (map message (filter (\<lambda>e. field e = f) errs))
                   else None)"
    by auto
  define sc' where
    "sc' = sc\<lparr>scopeFieldErrors := Some g, broadcasts := broadcasts sc @ [FieldErrorsEvent g]\<rparr>"
  have "save base (Rejected resp) sc = Inr sc'"
    by (simp add: dat some g sc'_def)
  moreover have "scopeFieldErrors sc' = Some g" and "editDetail sc' = editDetail sc"
    by (simp_all add: sc'_def)
  ultimately show "\<exists>sc' g. save base (Rejected resp) sc = Inr sc' \<and>
           scopeFieldErrors sc' = Some g \<and>
           distinct (map fst g) \<and>
           (\<forall>f. map_of g f =
                  (if f \<in> field ` set errs
                   then Some (map message (filter (\<lambda>e. field e = f) errs))
                   else None)) \<and>
           editDetail sc' = editDetail sc"
    using dg mg by blast
next
  assume dat: "data resp = Some d" and none: "fieldErrors d = None"
  then show "\<exists>sc'. save base (Rejected resp) sc = Inr sc' \<and>
           scopeFieldErrors sc' = None \<and>
           broadcasts sc' = broadcasts sc \<and>
           editDetail sc' = editDetail sc"
    by simp
qed

theorem save_rejected_groups_by_field_witness:
  "field ` set exampleErrors \<inter> set objectPrototypeNames = {} \<and>
   (\<exists>sc' g. save ''/widgets'' (Rejected \<lparr>data = Some \<lparr>fieldErrors = Some exampleErrors\<rparr>\<rparr>) exampleScope
          = Inr sc' \<and>
        scopeFieldErrors sc' = Some g \<and>
        map_of g ''name'' = Some [''required'', ''too short''] \<and>
        map_of g ''size'' = Some [''too small''] \<and>
        map_of g ''colour'' = None \<and>
        editDetail sc' = editDetail exampleScope) \<and>
   (\<exists>sc'. save ''/widgets'' (Rejected \<lparr>data = Some \<lparr>fieldErrors = None\<rparr>\<rparr>) exampleScope = Inr sc' \<and>
        scopeFieldErrors sc' = None)"
proof (intro conjI)
  let ?d = "\<lparr>fieldErrors = Some exampleErrors\<rparr>"
  let ?resp = "\<lparr>data = Some ?d\<rparr>"
  let ?n = "\<lparr>fieldErrors = None\<rparr>"
  show "field ` set exampleErrors \<inter> set objectPrototypeNames = {}"
    by (simp add: exampleErrors_def objectPrototypeNames_def)
  then have ord: "\<forall>e \<in> set exampleErrors. field e \<notin> set objectPrototypeNames"
    by blast
  have dat: "data ?resp = Some ?d" and some: "fieldErrors ?d = Some exampleErrors"
    by simp_all
  from save_rejected_groups_by_field [of ?resp ?d exampleErrors "''/widgets''" exampleScope] dat some ord
  obtain sc' g where s: "save ''/widgets'' (Rejected ?resp) exampleScope = Inr sc'"
    and g: "scopeFieldErrors sc' = Some g"
    and m: "\<And>f. map_of g f =
              (if f \<in> field ` set exampleErrors
               then Some (map message (filter (\<lambda>e. field e = f) exampleErrors))
               else None)"
    and e: "editDetail sc' = editDetail exampleScope"
    by blast
  have "map_of g ''name'' = Some [''required'', ''too short'']"
    and "map_of g ''size'' = Some [''too small'']"
    and "map_of g ''colour'' = None"
    by (simp_all add: m exampleErrors_def)
  with s g e show "\<exists>sc' g. save ''/widgets'' (Rejected ?resp) exampleScope = Inr sc' \<and>
        scopeFieldErrors sc' = Some g \<and>
        map_of g ''name'' = Some [''required'', ''too short''] \<and>
        map_of g ''size'' = Some [''too small''] \<and>
        map_of g ''colour'' = None \<and>
        editDetail sc' = editDetail exampleScope"
    by blast
  from save_rejected_groups_by_field [of "\<lparr>data = Some ?n\<rparr>" ?n "[]" "''/widgets''" exampleScope]
  show "\<exists>sc'. save ''/widgets'' (Rejected \<lparr>data = Some ?n\<rparr>) exampleScope = Inr sc' \<and> scopeFieldErrors sc' = None"
    by auto
qed

section \<open>The registry of the provider\<close>

text \<open>
  C10, as the claim states it, fails. A provider that has registered nothing returns, for
  the name \<^verbatim>\<open>constructor\<close>, the function that its registry inherits under that name, and not
  \<^verbatim>\<open>undefined\<close>.
\<close>

theorem config_inherited_name_not_undefined:
  "configs (unregistered runtimeStore) ''constructor'' = None \<and>
   config (unregistered runtimeStore) ''constructor'' None = (unregistered runtimeStore, Ref 4) \<and>
   kind (runtimeStore 4) = FunctionObject"
  by (simp add: config_def readConfigs_def unregistered_def objectPrototype_def
      objectPrototypeNames_def runtimeStore_def)

text \<open>
  C10, amended. \<^verbatim>\<open>config(name, undefined)\<close> changes nothing, under every name, and returns
  \<^verbatim>\<open>configs[name]\<close>: what is registered under the name, and \<^verbatim>\<open>undefined\<close> when nothing is and
  the registry inherits nothing under the name. \<^verbatim>\<open>config(name, c)\<close> with a configuration \<open>c\<close>
  stores \<open>c\<close> and returns it; under every name but \<^verbatim>\<open>__proto__\<close> it replaces what is registered
  under the name and leaves what the other names read as it is.
\<close>

theorem config_undefined_is_getter:
  "fst (config s nm None) = s \<and>
   (ordinaryName s nm \<longrightarrow>
      snd (config s nm None) = (case configs s nm of Some c \<Rightarrow> Ref c | None \<Rightarrow> Undefined)) \<and>
   config s nm (Some c) = (s\<lparr>configs := (configs s)(nm \<mapsto> c)\<rparr>, Ref c) \<and>
   (nm \<noteq> ''__proto__'' \<longrightarrow>
      (\<forall>n. n \<noteq> nm \<longrightarrow> readConfigs (s\<lparr>configs := (configs s)(nm \<mapsto> c)\<rparr>) n = readConfigs s n))"
  by (auto simp: config_def readConfigs_def ordinaryName_def split: option.splits)

theorem config_undefined_is_getter_witness:
  "ordinaryName (unregistered mergeStore) ''select'' \<and>
   config (unregistered mergeStore) ''select'' None = (unregistered mergeStore, Undefined) \<and>
   ordinaryName (registered mergeStore ''select'') ''select'' \<and>
   config (registered mergeStore ''select'') ''select'' None = (registered mergeStore ''select'', Ref 0) \<and>
   ''select'' \<noteq> ''__proto__'' \<and>
   config (unregistered mergeStore) ''select'' (Some 0) = (registered mergeStore ''select'', Ref 0) \<and>
   readConfigs (registered mergeStore ''select'') ''constructor'' =
     readConfigs (unregistered mergeStore) ''constructor''"
proof (intro conjI)
  show o1: "ordinaryName (unregistered mergeStore) ''select''"
    by (simp add: ordinaryName_def unregistered_def objectPrototype_def objectPrototypeNames_def)
  show o2: "ordinaryName (registered mergeStore ''select'') ''select''"
    by (simp add: ordinaryName_def registered_def)
  show p: "''select'' \<noteq> ''__proto__''"
    by simp
  have r: "(unregistered mergeStore)\<lparr>configs := (configs (unregistered mergeStore))(''select'' \<mapsto> 0)\<rparr>
             = registered mergeStore ''select''"
    by (simp add: unregistered_def registered_def)
  from config_undefined_is_getter [of "unregistered mergeStore" "''select''" 0] o1
  show "config (unregistered mergeStore) ''select'' None = (unregistered mergeStore, Undefined)"
    by (simp add: prod_eq_iff unregistered_def)
  from config_undefined_is_getter [of "registered mergeStore ''select''" "''select''" 0] o2
  show "config (registered mergeStore ''select'') ''select'' None = (registered mergeStore ''select'', Ref 0)"
    by (simp add: prod_eq_iff registered_def)
  from config_undefined_is_getter [of "unregistered mergeStore" "''select''" 0] r
  show "config (unregistered mergeStore) ''select'' (Some 0) = (registered mergeStore ''select'', Ref 0)"
    by simp
  from config_undefined_is_getter [of "unregistered mergeStore" "''select''" 0] p r
  show "readConfigs (registered mergeStore ''select'') ''constructor'' =
          readConfigs (unregistered mergeStore) ''constructor''"
    by simp
qed

text \<open>
  A registration under \<^verbatim>\<open>__proto__\<close> replaces the prototype of the registry: with the object
  \<open>{a: {x: 0, y: 2}}\<close> registered under that name, nothing is registered under \<open>a\<close>, and the
  registry reads the object \<open>{x: 0, y: 2}\<close> under \<open>a\<close>, through its new prototype.
\<close>

lemma config_proto_replaces_prototype:
  "snd (config (unregistered mergeStore) ''__proto__'' (Some 0)) = Ref 0 \<and>
   configs (fst (config (unregistered mergeStore) ''__proto__'' (Some 0))) ''a'' = None \<and>
   readConfigs (fst (config (unregistered mergeStore) ''__proto__'' (Some 0))) ''a'' = Ref 1"
  by (simp add: config_def readConfigs_def unregistered_def mergeStore_def keys_def getProp_def)

section \<open>The store: properties, frames and deep equality\<close>

lemma getProp_putProp:
  "getProp (putProp h a k v) b k' = (if b = a \<and> k' = k then v else getProp h b k')"
  by (simp add: getProp_def putProp_def update_conv')

lemma keys_putProp:
  "keys (putProp h a k v) b =
     (if b = a then (if k \<in> set (keys h a) then keys h a else keys h a @ [k]) else keys h b)"
  by (simp add: keys_def putProp_def update_keys)

lemma kind_putProp: "kind (putProp h a k v b) = kind (h b)"
  by (simp add: putProp_def)

lemma putProp_other: "b \<noteq> a \<Longrightarrow> putProp h a k v b = h b"
  by (simp add: putProp_def)

lemma getProp_in_keys: "k \<in> set (keys h a) \<Longrightarrow> map_of (props (h a)) k = Some (getProp h a k)"
  by (auto simp: keys_def getProp_def map_of_eq_None_iff split: option.splits)

lemma putProp_same: "k \<in> set (keys h a) \<Longrightarrow> putProp h a k (getProp h a k) = h"
  by (rule ext) (simp add: putProp_def update_triv [OF getProp_in_keys])

lemma getProp_eq: "h' a = h a \<Longrightarrow> getProp h' a k = getProp h a k"
  by (simp add: getProp_def)

lemma keys_eq: "h' a = h a \<Longrightarrow> keys h' a = keys h a"
  by (simp add: keys_def)

lemma addrs_frame: "(\<forall>a \<in> set (addrs h v t). h' a = h a) \<Longrightarrow> addrs h' v t = addrs h v t"
proof (induction t arbitrary: v)
  case (Leaf p)
  show ?case by simp
next
  case (Node k ps)
  show ?case
  proof (cases v)
    case (Ref a)
    from Node.prems Ref have a: "h' a = h a"
      by simp
    have "addrs h' (getProp h' a key) t = addrs h (getProp h a key) t" if "(key, t) \<in> set ps" for key t
    proof -
      have "\<forall>b \<in> set (addrs h (getProp h a key) t). h' b = h b"
        using Node.prems Ref that by fastforce
      then show ?thesis
        using Node.IH [of "(key, t)" t] that by (simp add: getProp_eq [of h' a h, OF a])
    qed
    then have eq: "map (\<lambda>(key, t). addrs h' (getProp h' a key) t) ps = map (\<lambda>(key, t). addrs h (getProp h a key) t) ps"
      by (intro map_cong) auto
    show ?thesis
      unfolding Ref by (simp only: addrs.simps val.case eq)
  qed simp_all
qed

lemma repr_frame: "(\<forall>a \<in> set (addrs h v t). h' a = h a) \<Longrightarrow> repr h' v t = repr h v t"
proof (induction t arbitrary: v)
  case (Leaf p)
  show ?case by simp
next
  case (Node k ps)
  show ?case
  proof (cases v)
    case (Ref a)
    from Node.prems Ref have a: "h' a = h a"
      by simp
    have "repr h' (getProp h' a key) t = repr h (getProp h a key) t" if "(key, t) \<in> set ps" for key t
    proof -
      have "\<forall>b \<in> set (addrs h (getProp h a key) t). h' b = h b"
        using Node.prems Ref that by fastforce
      then show ?thesis
        using Node.IH [of "(key, t)" t] that by (simp add: getProp_eq [of h' a h, OF a])
    qed
    with Ref a show ?thesis
      by (auto simp: keys_eq [of h' a h, OF a])
  qed simp_all
qed

lemma addrs_child_subset:
  "(key, t) \<in> set ps \<Longrightarrow> set (addrs h (getProp h a key) t) \<subseteq> set (addrs h (Ref a) (Node k ps))"
  by fastforce

section \<open>Targets that already hold their source\<close>

lemma repr_Node_Ref [simp]:
  "repr h (Ref a) (Node k ps) \<longleftrightarrow>
     kind (h a) = k \<and> keys h a = map fst ps \<and> distinct (map fst ps) \<and>
     (\<forall>(key, t) \<in> set ps. repr h (getProp h a key) t)"
  by simp

lemma repr_NodeD: "repr h v (Node k ps) \<Longrightarrow> \<exists>a. v = Ref a"
  by (cases v) simp_all

lemma repr_Ref_Node: "repr h (Ref a) t \<Longrightarrow> \<exists>k ps. t = Node k ps"
  by (cases t) simp_all

lemma addrs_Node_Ref [simp]:
  "addrs h (Ref a) (Node k ps) = a # concat (map (\<lambda>(key, t). addrs h (getProp h a key) t) ps)"
  by simp

lemma merged_Node_Ref:
  "merged h t (Ref s) (Node k sps) = (\<forall>(key, st) \<in> set sps. mergedAt h t s key st)"
  by (simp add: mergedAt_def)

declare repr.simps(2) [simp del] addrs.simps(2) [simp del] merged.simps(2) [simp del]

lemma assignDeep_Suc: "assignDeep (Suc n) h t sv = assign (deepCallback n) h t sv"
  by (simp add: deepCallback_def)

declare assignDeep.simps [simp del]

lemma assignDeep_not_object: "\<not> isObject sv \<Longrightarrow> assignDeep (Suc n) h t sv = Some (h, Ref t)"
  by (cases sv) (simp_all add: assign_def assignDeep_Suc)

lemma assignDeep_Ref:
  "assignDeep (Suc n) h t (Ref s) =
     (case assignKeys (deepCallback n) t s (keys h s) h of None \<Rightarrow> None | Some h' \<Rightarrow> Some (h', Ref t))"
  by (simp add: assign_def assignDeep_Suc)

lemma merge_Node: "merge (Node k tps) (Node k' sps) = Node k (fold mergeStep sps tps)"
proof -
  have "mergeStep = (\<lambda>(key, st) acc.
             AList.update key
               (case map_of acc key of
                  Some (Node kc pc) \<Rightarrow>
                    (case st of Node ks ps \<Rightarrow> merge (Node kc pc) st | Leaf p \<Rightarrow> st)
                | _ \<Rightarrow> st)
               acc)"
    by (intro ext) (simp add: mergeStep_def split: prod.splits)
  then show ?thesis
    by simp
qed

lemma le_fold_max: "x \<in> set xs \<Longrightarrow> (x::nat) \<le> fold max xs m"
proof (induction xs arbitrary: m)
  case Nil
  then show ?case by simp
next
  case (Cons y ys)
  have mono: "m \<le> fold max ys m" for m :: nat
    by (induction ys arbitrary: m) (auto intro: order_trans [OF max.cobounded2])
  from Cons show ?case
    by (auto intro: order_trans [OF max.cobounded1 mono])
qed

lemma depth_child: "(key, st) \<in> set sps \<Longrightarrow> depth st < depth (Node k sps)"
proof -
  assume "(key, st) \<in> set sps"
  then have "depth st \<in> set (map (\<lambda>(key, t). depth t) sps)"
    by force
  from le_fold_max [OF this, of 0] show ?thesis
    by simp
qed

lemma isObject_conv: "isObject v \<longleftrightarrow> (\<exists>a. v = Ref a)"
  by (cases v) simp_all

lemma mergedAt_Ref_intro:
  "key \<in> set (keys h t) \<Longrightarrow> getProp h t key = Ref tc \<Longrightarrow> getProp h s key = Ref sc \<Longrightarrow>
   merged h tc (Ref sc) st \<Longrightarrow> mergedAt h t s key st"
  by (simp add: mergedAt_def)

lemma mergedAt_same_intro:
  "key \<in> set (keys h t) \<Longrightarrow> \<not> isObject (getProp h t key) \<Longrightarrow> getProp h s key = getProp h t key \<Longrightarrow>
   mergedAt h t s key st"
  by (cases "getProp h t key") (simp_all add: mergedAt_def)

lemma mergedAt_Ref:
  "mergedAt h t s key st \<Longrightarrow> getProp h t key = Ref tc \<Longrightarrow>
   \<exists>sc. getProp h s key = Ref sc \<and> merged h tc (Ref sc) st"
  by (auto simp: mergedAt_def split: val.splits)

lemma mergedAt_not_Ref:
  "mergedAt h t s key st \<Longrightarrow> \<not> isObject (getProp h t key) \<Longrightarrow> getProp h s key = getProp h t key"
  by (cases "getProp h t key") (auto simp: mergedAt_def)

lemma mergedAt_key: "mergedAt h t s key st \<Longrightarrow> key \<in> set (keys h t)"
  by (simp add: mergedAt_def)

lemma self_merged: "repr h (Ref x) ts \<Longrightarrow> merged h x (Ref x) ts"
proof (induction ts arbitrary: x)
  case (Leaf p)
  show ?case by simp
next
  case (Node k sps)
  have "mergedAt h x x key st" if e: "(key, st) \<in> set sps" for key st
  proof (cases "isObject (getProp h x key)")
    case True
    then obtain tc where tc: "getProp h x key = Ref tc"
      by (auto simp: isObject_conv)
    from Node.prems e have k: "key \<in> set (keys h x)" and r: "repr h (getProp h x key) st"
      by force+
    from Node.IH [of "(key, st)" st tc] e r tc have "merged h tc (Ref tc) st"
      by simp
    with k tc show ?thesis
      by (intro mergedAt_Ref_intro)
  next
    case False
    from Node.prems e have "key \<in> set (keys h x)"
      by force
    with False show ?thesis
      by (intro mergedAt_same_intro) simp_all
  qed
  then show ?case
    by (auto simp: merged_Node_Ref)
qed

lemma deepCallback_not_object:
  "\<not> isObject tv \<or> \<not> isObject sv \<Longrightarrow> deepCallback n h tv sv = Some (h, sv)"
  by (cases tv) (auto simp: deepCallback_def)

lemma deepCallback_objects:
  "deepCallback n h (Ref tc) (Ref sc) = assignDeep n h tc (Ref sc)"
  by (simp add: deepCallback_def)

lemma assignDeep_merged_noop:
  "repr h sv ts \<Longrightarrow> merged h t sv ts \<Longrightarrow> depth ts < n \<Longrightarrow> assignDeep n h t sv = Some (h, Ref t)"
proof (induction ts arbitrary: n t sv)
  case (Leaf p)
  then obtain n' where "n = Suc n'"
    by (cases n) auto
  with Leaf show ?case
    by (simp add: assignDeep_not_object)
next
  case (Node k sps)
  from Node.prems obtain n' where n: "n = Suc n'"
    by (cases n) auto
  from repr_NodeD [OF Node.prems(1)] obtain s where sv: "sv = Ref s"
    by blast
  from Node.prems sv have ks: "keys h s = map fst sps"
    and rs: "\<And>key st. (key, st) \<in> set sps \<Longrightarrow> repr h (getProp h s key) st"
    and ms: "\<And>key st. (key, st) \<in> set sps \<Longrightarrow> mergedAt h t s key st"
    by (auto simp: merged_Node_Ref)
  have loop: "assignKeys (deepCallback n') t s ks h = Some h" if "set ks \<subseteq> fst ` set sps" for ks
    using that
  proof (induction ks)
    case Nil
    show ?case by simp
  next
    case (Cons key ks)
    then obtain st where e: "(key, st) \<in> set sps"
      by auto
    have d: "depth st < n'"
      using depth_child [OF e, of k] Node.prems(3) n by simp
    have cb: "deepCallback n' h (getProp h t key) (getProp h s key) = Some (h, getProp h t key)"
    proof (cases "isObject (getProp h t key)")
      case True
      then obtain tc where tc: "getProp h t key = Ref tc"
        by (auto simp: isObject_conv)
      from mergedAt_Ref [OF ms [OF e] tc] obtain sc
        where sc: "getProp h s key = Ref sc" and m: "merged h tc (Ref sc) st"
        by blast
      from rs [OF e] sc have "repr h (Ref sc) st"
        by simp
      from Node.IH [of "(key, st)" st "Ref sc" tc n', OF _ _ this m d] e
      have "assignDeep n' h tc (Ref sc) = Some (h, Ref tc)"
        by simp
      with tc sc show ?thesis
        by (simp add: deepCallback_objects)
    next
      case False
      with mergedAt_not_Ref [OF ms [OF e]] show ?thesis
        by (simp add: deepCallback_not_object)
    qed
    have "putProp h t key (getProp h t key) = h"
      by (rule putProp_same [OF mergedAt_key [OF ms [OF e]]])
    with cb Cons show ?case
      by simp
  qed
  from loop [of "keys h s"] ks show ?case
    by (simp add: n sv assignDeep_Ref)
qed

lemma merged_frame:
  "repr h (Ref tc) tr \<Longrightarrow> repr h sv st \<Longrightarrow>
   (\<forall>a \<in> set (addrs h (Ref tc) tr) \<union> set (addrs h sv st). h' a = h a) \<Longrightarrow>
   merged h tc sv st \<Longrightarrow> merged h' tc sv st"
proof (induction st arbitrary: tc tr sv)
  case (Leaf p)
  show ?case by simp
next
  case (Node k sps)
  from repr_NodeD [OF Node.prems(2)] obtain s where sv: "sv = Ref s"
    by blast
  from repr_Ref_Node [OF Node.prems(1)] obtain kt tps where tr: "tr = Node kt tps"
    by blast
  from Node.prems(3) sv tr have tc: "h' tc = h tc" and s: "h' s = h s"
    by simp_all
  have "mergedAt h' tc s key st" if e: "(key, st) \<in> set sps" for key st
  proof -
    from Node.prems(4) sv e have m: "mergedAt h tc s key st"
      by (auto simp: merged_Node_Ref)
    from Node.prems(2) sv e have rs: "repr h (getProp h s key) st"
      by auto
    have gt: "getProp h' tc key = getProp h tc key" and gs: "getProp h' s key = getProp h s key"
      and kt: "keys h' tc = keys h tc"
      using tc s by (simp_all add: getProp_def keys_def)
    show ?thesis
    proof (cases "isObject (getProp h tc key)")
      case True
      then obtain tcc where Ref: "getProp h tc key = Ref tcc"
        by (auto simp: isObject_conv)
      from mergedAt_Ref [OF m Ref] obtain sc
        where sc: "getProp h s key = Ref sc" and mm: "merged h tcc (Ref sc) st"
        by blast
      from mergedAt_key [OF m] Node.prems(1) tr obtain trc where c: "(key, trc) \<in> set tps"
        by auto
      with Node.prems(1) tr Ref have rt: "repr h (Ref tcc) trc"
        by auto
      have sub1: "set (addrs h (Ref tcc) trc) \<subseteq> set (addrs h (Ref tc) tr)"
        using addrs_child_subset [OF c, of h tc kt] Ref tr by simp
      have sub2: "set (addrs h (Ref sc) st) \<subseteq> set (addrs h sv (Node k sps))"
        using addrs_child_subset [OF e, of h s k] sc sv by simp
      have "\<forall>a \<in> set (addrs h (Ref tcc) trc) \<union> set (addrs h (Ref sc) st). h' a = h a"
        using Node.prems(3) sub1 sub2 by blast
      from Node.IH [of "(key, st)" st tcc trc "Ref sc", OF _ _ rt _ this mm] e rs sc
      have "merged h' tcc (Ref sc) st"
        by simp
      with Ref sc gt gs kt mergedAt_key [OF m] show ?thesis
        by (intro mergedAt_Ref_intro) simp_all
    next
      case False
      with mergedAt_not_Ref [OF m] gt gs kt mergedAt_key [OF m] show ?thesis
        by (intro mergedAt_same_intro) simp_all
    qed
  qed
  with sv show ?case
    by (auto simp: merged_Node_Ref)
qed

section \<open>\<^verbatim>\<open>assignDeep\<close> on unshared literals is the merge of the literals\<close>

lemma getProp_Ref_key: "getProp h t key = Ref tc \<Longrightarrow> key \<in> set (keys h t)"
  by (force simp: getProp_def keys_def split: option.splits dest!: map_of_SomeD)

lemma repr_not_object_Leaf: "repr h v tr \<Longrightarrow> \<not> isObject v \<Longrightarrow> \<exists>p. tr = Leaf p"
  by (cases tr) (auto dest: repr_NodeD)

lemma addrs_not_object: "\<not> isObject v \<Longrightarrow> addrs h v tr = []"
  by (cases tr; cases v) (simp_all add: addrs.simps(2))

lemma mergeStep_objects:
  "map_of cur key = Some tr \<Longrightarrow> repr h (Ref tc) tr \<Longrightarrow> repr h' (Ref sc) st \<Longrightarrow>
   mergeStep (key, st) cur = AList.update key (merge tr st) cur"
  by (cases tr; cases st) (simp_all add: mergeStep_def)

lemma mergeStep_source_Leaf: "mergeStep (key, Leaf p) cur = AList.update key (Leaf p) cur"
  by (simp add: mergeStep_def split: option.splits tree.splits)

lemma mergeStep_target_Leaf:
  "(\<And>tr. map_of cur key = Some tr \<Longrightarrow> \<exists>p. tr = Leaf p) \<Longrightarrow>
   mergeStep (key, st) cur = AList.update key st cur"
  by (auto simp: mergeStep_def split: option.splits tree.splits)

lemma putProp_obj: "putProp h t key v t = Obj (kind (h t)) (AList.update key v (props (h t)))"
  by (simp add: putProp_def)

lemma assign_step:
  assumes t1: "keys h t = map fst cur"
    and t2: "\<And>tr. map_of cur key = Some tr \<Longrightarrow>
               repr h (getProp h t key) tr \<and> set (addrs h (getProp h t key) tr) \<subseteq> B \<and>
               distinct (addrs h (getProp h t key) tr) \<and>
               set (addrs h (getProp h t key) tr) \<inter> set (addrs h (getProp h s key) st) = {}"
    and s1: "repr h (getProp h s key) st" "distinct (addrs h (getProp h s key) st)"
      "set (addrs h (getProp h s key) st) \<subseteq> B" "depth st < n'"
    and b2: "t \<notin> B" "s \<notin> B" "t \<noteq> s"
    and IH: "\<And>h tc tr sv. mergePre h tc tr sv st \<Longrightarrow> mergePost n' h tc tr sv st"
  shows "\<exists>h1' v X.
           deepCallback n' h (getProp h t key) (getProp h s key) = Some (h1', v) \<and>
           v = (case map_of (props (h t)) key of
                  Some (Ref tc) \<Rightarrow> (if isObject (getProp h s key) then Ref tc else getProp h s key)
                | _ \<Rightarrow> getProp h s key) \<and>
           putProp h1' t key v t = Obj (kind (h t)) (AList.update key v (props (h t))) \<and>
           (\<forall>a. a \<noteq> t \<longrightarrow> (\<forall>tr. map_of cur key = Some tr \<longrightarrow> a \<notin> set (addrs h (getProp h t key) tr)) \<longrightarrow>
                putProp h1' t key v a = h a) \<and>
           mergeStep (key, st) cur = AList.update key X cur \<and>
           repr (putProp h1' t key v) v X \<and>
           set (addrs (putProp h1' t key v) v X) \<subseteq> B \<and>
           mergedAt (putProp h1' t key v) t s key st"
proof (cases "isObject (getProp h t key) \<and> isObject (getProp h s key)")
  case True
  then obtain tc sc where tc: "getProp h t key = Ref tc" and sc: "getProp h s key = Ref sc"
    by (auto simp: isObject_conv)
  from getProp_Ref_key [OF tc] t1 obtain tr where tr: "map_of cur key = Some tr"
    by (cases "map_of cur key") (auto simp: map_of_eq_None_iff)
  note f = t2 [OF tr, unfolded tc sc]
  from f s1 sc have pre: "mergePre h tc tr (Ref sc) st"
    by (auto simp: mergePre_def)
  from IH [OF pre] obtain h1' where
    run: "assignDeep n' h tc (Ref sc) = Some (h1', Ref tc)"
    and frame: "\<And>a. a \<notin> set (addrs h (Ref tc) tr) \<Longrightarrow> h1' a = h a"
    and rep: "repr h1' (Ref tc) (merge tr st)"
    and fp: "set (addrs h1' (Ref tc) (merge tr st)) \<subseteq> set (addrs h (Ref tc) tr) \<union> set (addrs h (Ref sc) st)"
    and mrg: "merged h1' tc (Ref sc) st"
    unfolding mergePost_def by blast
  let ?h1 = "putProp h1' t key (Ref tc)"
  from f b2 have tnot: "t \<notin> set (addrs h (Ref tc) tr)" and snot: "s \<notin> set (addrs h (Ref tc) tr)"
    by auto
  have ht: "h1' t = h t" and hs: "h1' s = h s"
    using frame tnot snot by simp_all
  have fpB: "set (addrs h1' (Ref tc) (merge tr st)) \<subseteq> B"
    using fp f s1(3) sc by auto
  have other: "?h1 a = h1' a" if "a \<noteq> t" for a
    using that by (simp add: putProp_other)
  have v: "(case map_of (props (h t)) key of
              Some (Ref tc) \<Rightarrow> (if isObject (getProp h s key) then Ref tc else getProp h s key)
            | _ \<Rightarrow> getProp h s key) = Ref tc"
    using tc sc by (auto simp: getProp_def split: option.splits val.splits)
  have c1: "deepCallback n' h (getProp h t key) (getProp h s key) = Some (h1', Ref tc)"
    using run tc sc by (simp add: deepCallback_objects)
  have c3: "?h1 t = Obj (kind (h t)) (AList.update key (Ref tc) (props (h t)))"
    by (simp add: putProp_obj ht)
  have c4: "?h1 a = h a" if "a \<noteq> t" "\<forall>tr. map_of cur key = Some tr \<longrightarrow> a \<notin> set (addrs h (getProp h t key) tr)" for a
    using that tr tc frame by (simp add: putProp_other)
  have c5: "mergeStep (key, st) cur = AList.update key (merge tr st) cur"
    using mergeStep_objects [OF tr] f s1(1) sc by auto
  have agree: "\<forall>a \<in> set (addrs h1' (Ref tc) (merge tr st)). ?h1 a = h1' a"
    using fpB b2 by (auto simp: putProp_def)
  have c6: "repr ?h1 (Ref tc) (merge tr st)"
    using repr_frame [OF agree] rep by simp
  have c7: "set (addrs ?h1 (Ref tc) (merge tr st)) \<subseteq> B"
    using addrs_frame [OF agree] fpB by simp
  have srep: "repr h1' (Ref sc) st" and saddrs: "addrs h1' (Ref sc) st = addrs h (Ref sc) st"
  proof -
    have "\<forall>a \<in> set (addrs h (Ref sc) st). h1' a = h a"
      using frame f by auto
    from repr_frame [OF this] addrs_frame [OF this] s1(1) sc
    show "repr h1' (Ref sc) st" and "addrs h1' (Ref sc) st = addrs h (Ref sc) st"
      by simp_all
  qed
  have agree2: "\<forall>a \<in> set (addrs h1' (Ref tc) (merge tr st)) \<union> set (addrs h1' (Ref sc) st). ?h1 a = h1' a"
    using fpB b2 saddrs s1(3) sc by (auto simp: putProp_def)
  have "merged ?h1 tc (Ref sc) st"
    by (rule merged_frame [OF rep srep agree2 mrg])
  moreover have "getProp ?h1 t key = Ref tc"
    by (simp add: getProp_putProp)
  moreover have "getProp ?h1 s key = Ref sc"
    using b2 sc hs by (simp add: getProp_putProp getProp_eq [of h1' s h])
  moreover have "key \<in> set (keys ?h1 t)"
    by (simp add: keys_putProp)
  ultimately have c8: "mergedAt ?h1 t s key st"
    by (intro mergedAt_Ref_intro)
  from c1 v c3 c4 c5 c6 c7 c8 show ?thesis
    by (intro exI [of _ h1'] exI [of _ "Ref tc"] exI [of _ "merge tr st"]) simp
next
  case False
  let ?sv = "getProp h s key"
  let ?h1 = "putProp h t key ?sv"
  have c1: "deepCallback n' h (getProp h t key) ?sv = Some (h, ?sv)"
    using False by (intro deepCallback_not_object) simp
  have v: "(case map_of (props (h t)) key of
              Some (Ref tc) \<Rightarrow> (if isObject ?sv then Ref tc else ?sv)
            | _ \<Rightarrow> ?sv) = ?sv"
    using False by (auto simp: getProp_def split: option.splits val.splits)
  have c3: "?h1 t = Obj (kind (h t)) (AList.update key ?sv (props (h t)))"
    by (simp add: putProp_obj)
  have c4: "?h1 a = h a" if "a \<noteq> t" for a
    using that by (simp add: putProp_other)
  have c5: "mergeStep (key, st) cur = AList.update key st cur"
  proof (cases "isObject ?sv")
    case True
    with False have nt: "\<not> isObject (getProp h t key)"
      by simp
    show ?thesis
      by (rule mergeStep_target_Leaf) (use t2 nt in \<open>auto dest: repr_not_object_Leaf\<close>)
  next
    case False
    from repr_not_object_Leaf [OF s1(1) False] show ?thesis
      by (auto simp: mergeStep_source_Leaf)
  qed
  have agree: "\<forall>a \<in> set (addrs h ?sv st). ?h1 a = h a"
    using s1(3) b2 by (auto simp: putProp_def)
  have c6: "repr ?h1 ?sv st"
    using repr_frame [OF agree] s1(1) by simp
  have c7: "set (addrs ?h1 ?sv st) \<subseteq> B"
    using addrs_frame [OF agree] s1(3) by simp
  have gs: "getProp ?h1 s key = ?sv"
    using b2 by (simp add: getProp_putProp)
  have gt: "getProp ?h1 t key = ?sv"
    by (simp add: getProp_putProp)
  have k: "key \<in> set (keys ?h1 t)"
    by (simp add: keys_putProp)
  have c8: "mergedAt ?h1 t s key st"
  proof (cases "isObject ?sv")
    case True
    then obtain sc where sc: "?sv = Ref sc"
      by (auto simp: isObject_conv)
    from c6 sc have "merged ?h1 sc (Ref sc) st"
      by (intro self_merged) simp
    with k gs gt sc show ?thesis
      by (intro mergedAt_Ref_intro [of _ _ _ sc _ sc]) simp_all
  next
    case False
    with k gs gt show ?thesis
      by (intro mergedAt_same_intro) simp_all
  qed
  from c1 v c3 c4 c5 c6 c7 c8 show ?thesis
    by (intro exI [of _ h] exI [of _ ?sv] exI [of _ st]) simp
qed

lemma map_of_overlayProps_notin:
  "key \<notin> fst ` set sp \<Longrightarrow> map_of (overlayProps tp sp) key = map_of tp key"
  by (induction tp sp rule: overlayProps.induct) (auto simp: update_conv')

lemma keys_overlayProps: "fst ` set (overlayProps tp sp) = fst ` set tp \<union> fst ` set sp"
  by (induction tp sp rule: overlayProps.induct) (auto simp: dom_update)

lemma getProp_props: "props (h' a) = props (h a) \<Longrightarrow> getProp h' a key = getProp h a key"
  by (simp add: getProp_def)

lemma mergedAt_frame:
  assumes m: "mergedAt h t s key st"
    and rt: "repr h (getProp h t key) X"
    and rs: "repr h (getProp h s key) st"
    and gs: "getProp h' s key = getProp h s key"
    and gt: "getProp h' t key = getProp h t key"
    and k: "key \<in> set (keys h' t)"
    and agree: "\<forall>a \<in> set (addrs h (getProp h t key) X) \<union> set (addrs h (getProp h s key) st). h' a = h a"
  shows "mergedAt h' t s key st"
proof (cases "isObject (getProp h t key)")
  case True
  then obtain tc where tc: "getProp h t key = Ref tc"
    by (auto simp: isObject_conv)
  from mergedAt_Ref [OF m tc] obtain sc where sc: "getProp h s key = Ref sc"
    and mm: "merged h tc (Ref sc) st"
    by blast
  have "merged h' tc (Ref sc) st"
    using merged_frame [of h tc X "Ref sc" st h'] rt rs agree mm tc sc by simp
  with k gs gt tc sc show ?thesis
    by (intro mergedAt_Ref_intro [of _ _ _ tc _ sc]) simp_all
next
  case False
  with mergedAt_not_Ref [OF m] k gs gt show ?thesis
    by (intro mergedAt_same_intro) simp_all
qed

lemma assignKeys_refines:
  assumes b1: "\<And>key key'. key \<noteq> key' \<Longrightarrow> B key \<inter> B key' = {}"
    and b2: "\<And>key. t \<notin> B key" "\<And>key. s \<notin> B key" "t \<noteq> s"
  shows "(\<And>key st h tc tr sv. (key, st) \<in> set rest \<Longrightarrow> mergePre h tc tr sv st \<Longrightarrow> mergePost n h tc tr sv st) \<Longrightarrow>
         loopPre n B t s k h cur rest \<Longrightarrow>
         \<exists>h'. assignKeys (deepCallback n) t s (map fst rest) h = Some h' \<and> loopPost B t s k h cur rest h'"
proof (induction rest arbitrary: h cur)
  case Nil
  then show ?case
    by (simp add: loopPre_def loopPost_def)
next
  case (Cons e rest)
  obtain key st where e: "e = (key, st)"
    by (cases e)
  have IHst: "\<And>h tc tr sv. mergePre h tc tr sv st \<Longrightarrow> mergePost n h tc tr sv st"
    using Cons.prems(1) [of key st] e by simp
  note pre = Cons.prems(2) [unfolded loopPre_def e]
  from pre have k: "kind (h t) = k" and ks: "keys h t = map fst cur" and dc: "distinct (map fst cur)"
    and dr: "distinct (map fst ((key, st) # rest))"
    by simp_all
  from pre have t2: "\<And>key tr. map_of cur key = Some tr \<Longrightarrow>
      repr h (getProp h t key) tr \<and> set (addrs h (getProp h t key) tr) \<subseteq> B key"
    by blast
  from pre have t3: "\<And>key' tr st'. map_of cur key' = Some tr \<Longrightarrow> (key', st') \<in> set ((key, st) # rest) \<Longrightarrow>
      distinct (addrs h (getProp h t key') tr) \<and>
      set (addrs h (getProp h t key') tr) \<inter> set (addrs h (getProp h s key') st') = {}"
    by blast
  from pre have s1: "\<And>key' st'. (key', st') \<in> set ((key, st) # rest) \<Longrightarrow>
      repr h (getProp h s key') st' \<and> distinct (addrs h (getProp h s key') st') \<and>
      set (addrs h (getProp h s key') st') \<subseteq> B key' \<and> depth st' < n"
    by blast
  have st2: "\<And>tr. map_of cur key = Some tr \<Longrightarrow>
      repr h (getProp h t key) tr \<and> set (addrs h (getProp h t key) tr) \<subseteq> B key \<and>
      distinct (addrs h (getProp h t key) tr) \<and>
      set (addrs h (getProp h t key) tr) \<inter> set (addrs h (getProp h s key) st) = {}"
    using t2 t3 [of key _ st] by simp
  have ss: "repr h (getProp h s key) st" "distinct (addrs h (getProp h s key) st)"
    "set (addrs h (getProp h s key) st) \<subseteq> B key" "depth st < n"
    using s1 [of key st] by simp_all
  from assign_step [of h t cur key "B key" s st n, OF ks st2 ss b2(1) b2(2) b2(3) IHst]
  obtain h1' v X where
    run: "deepCallback n h (getProp h t key) (getProp h s key) = Some (h1', v)"
    and vdef: "v = (case map_of (props (h t)) key of
                  Some (Ref tc) \<Rightarrow> (if isObject (getProp h s key) then Ref tc else getProp h s key)
                | _ \<Rightarrow> getProp h s key)"
    and h1t: "putProp h1' t key v t = Obj (kind (h t)) (AList.update key v (props (h t)))"
    and fr1: "\<And>a. a \<noteq> t \<Longrightarrow> (\<forall>tr. map_of cur key = Some tr \<longrightarrow> a \<notin> set (addrs h (getProp h t key) tr)) \<Longrightarrow>
                putProp h1' t key v a = h a"
    and ms: "mergeStep (key, st) cur = AList.update key X cur"
    and rX: "repr (putProp h1' t key v) v X"
    and fX: "set (addrs (putProp h1' t key v) v X) \<subseteq> B key"
    and mA: "mergedAt (putProp h1' t key v) t s key st"
    by blast
  define h1 where "h1 = putProp h1' t key v"
  define cur1 where "cur1 = AList.update key X cur"
  note h1t = h1t [folded h1_def] and fr1 = fr1 [folded h1_def] and rX = rX [folded h1_def]
    and fX = fX [folded h1_def] and mA = mA [folded h1_def]
  have mc1: "map_of cur1 = (map_of cur)(key \<mapsto> X)"
    by (simp add: cur1_def update_conv')
  have g1: "getProp h1 t key' = (if key' = key then v else getProp h t key')" for key'
    by (simp add: getProp_def h1t update_conv')
  have agreeB: "h1 a = h a" if "key' \<noteq> key" "a \<in> B key'" for a key'
  proof (rule fr1)
    from that b2(1) [of key'] show "a \<noteq> t"
      by auto
    from that t2 b1 [of key' key] show "\<forall>tr. map_of cur key = Some tr \<longrightarrow> a \<notin> set (addrs h (getProp h t key) tr)"
      by blast
  qed
  have hs: "h1 s = h s"
  proof (rule fr1)
    from b2 show "s \<noteq> t"
      by simp
    from t2 b2(2) [of key] show "\<forall>tr. map_of cur key = Some tr \<longrightarrow> s \<notin> set (addrs h (getProp h t key) tr)"
      by blast
  qed
  have gs: "getProp h1 s key' = getProp h s key'" for key'
    using hs by (simp add: getProp_def)
  have agreeS: "h1 a = h a" if "a \<in> set (addrs h (getProp h s key) st)" for a
  proof (rule fr1)
    from that ss(3) b2(1) [of key] show "a \<noteq> t"
      by auto
    from that st2 show "\<forall>tr. map_of cur key = Some tr \<longrightarrow> a \<notin> set (addrs h (getProp h t key) tr)"
      by blast
  qed
  have notin: "key' \<noteq> key" if "(key', st') \<in> set rest" for key' st'
    using that dr by force
  have pre1: "loopPre n B t s k h1 cur1 rest"
    unfolding loopPre_def
  proof (intro conjI allI impI)
    show "kind (h1 t) = k"
      by (simp add: h1t k)
    show "keys h1 t = map fst cur1"
      using ks by (simp add: keys_def h1t cur1_def update_keys)
    show "distinct (map fst cur1)"
      by (simp add: cur1_def distinct_update dc)
    show "distinct (map fst rest)"
      using dr by simp
  next
    fix key' tr'
    assume m: "map_of cur1 key' = Some tr'"
    show "repr h1 (getProp h1 t key') tr'" and "set (addrs h1 (getProp h1 t key') tr') \<subseteq> B key'"
    proof -
      have "repr h1 (getProp h1 t key') tr' \<and> set (addrs h1 (getProp h1 t key') tr') \<subseteq> B key'"
      proof (cases "key' = key")
        case True
        with m mc1 have "tr' = X"
          by simp
        with True rX fX g1 show ?thesis
          by simp
      next
        case False
        with m mc1 have mo: "map_of cur key' = Some tr'"
          by simp
        from t2 [OF mo] have r: "repr h (getProp h t key') tr'"
          and sub: "set (addrs h (getProp h t key') tr') \<subseteq> B key'"
          by simp_all
        have ag: "\<forall>a \<in> set (addrs h (getProp h t key') tr'). h1 a = h a"
          using agreeB [OF False] sub by blast
        from repr_frame [OF ag] addrs_frame [OF ag] r sub False g1 show ?thesis
          by simp
      qed
      then show "repr h1 (getProp h1 t key') tr'" and "set (addrs h1 (getProp h1 t key') tr') \<subseteq> B key'"
        by simp_all
    qed
  next
    fix key' tr' st'
    assume m: "map_of cur1 key' = Some tr'" and r: "(key', st') \<in> set rest"
    from notin [OF r] have ne: "key' \<noteq> key" .
    with m mc1 have mo: "map_of cur key' = Some tr'"
      by simp
    from t2 [OF mo] have sub: "set (addrs h (getProp h t key') tr') \<subseteq> B key'"
      by simp
    have ag: "\<forall>a \<in> set (addrs h (getProp h t key') tr'). h1 a = h a"
      using agreeB [OF ne] sub by blast
    from s1 [of key' st'] r have ssub: "set (addrs h (getProp h s key') st') \<subseteq> B key'"
      by simp
    have ags: "\<forall>a \<in> set (addrs h (getProp h s key') st'). h1 a = h a"
      using agreeB [OF ne] ssub by blast
    from t3 [OF mo, of st'] r addrs_frame [OF ag] addrs_frame [OF ags] ne g1 gs
    show "distinct (addrs h1 (getProp h1 t key') tr')"
      and "set (addrs h1 (getProp h1 t key') tr') \<inter> set (addrs h1 (getProp h1 s key') st') = {}"
      by simp_all
  next
    fix key' st'
    assume r: "(key', st') \<in> set rest"
    from notin [OF r] have ne: "key' \<noteq> key" .
    from s1 [of key' st'] r have f: "repr h (getProp h s key') st'"
      "distinct (addrs h (getProp h s key') st')"
      "set (addrs h (getProp h s key') st') \<subseteq> B key'" "depth st' < n"
      by simp_all
    have ags: "\<forall>a \<in> set (addrs h (getProp h s key') st'). h1 a = h a"
      using agreeB [OF ne] f(3) by blast
    from f repr_frame [OF ags] addrs_frame [OF ags] gs
    show "repr h1 (getProp h1 s key') st'" and "distinct (addrs h1 (getProp h1 s key') st')"
      and "set (addrs h1 (getProp h1 s key') st') \<subseteq> B key'" and "depth st' < n"
      by simp_all
  qed
  have IHrest: "mergePost n h tc tr sv st" if "(key, st) \<in> set rest" "mergePre h tc tr sv st"
    for key st h tc tr sv
    using that Cons.prems(1) [of key st h tc tr sv] by simp
  have "\<exists>h'. assignKeys (deepCallback n) t s (map fst rest) h1 = Some h' \<and> loopPost B t s k h1 cur1 rest h'"
  proof (rule Cons.IH [OF _ pre1])
    fix key st h tc tr sv
    assume "(key, st) \<in> set rest" "mergePre h tc tr sv st"
    then show "mergePost n h tc tr sv st"
      by (rule IHrest)
  qed
  then obtain h' where
    loop: "assignKeys (deepCallback n) t s (map fst rest) h1 = Some h'"
    and post: "loopPost B t s k h1 cur1 rest h'"
    by blast
  note p = post [unfolded loopPost_def]
  from p have pk: "kind (h' t) = k" and pks: "keys h' t = map fst (fold mergeStep rest cur1)"
    and pd: "distinct (map fst (fold mergeStep rest cur1))"
    and pov: "props (h' t) = overlayProps (props (h1 t)) (map (\<lambda>(key, st). (key, getProp h1 s key)) rest)"
    and pm: "\<forall>(key, st) \<in> set rest. mergedAt h' t s key st"
    by simp_all
  from p have pr: "\<And>key tr. map_of (fold mergeStep rest cur1) key = Some tr \<Longrightarrow>
      repr h' (getProp h' t key) tr \<and> set (addrs h' (getProp h' t key) tr) \<subseteq> B key"
    by blast
  from p have pf: "\<And>a. a \<noteq> t \<Longrightarrow>
      (\<forall>key tr. map_of cur1 key = Some tr \<longrightarrow> key \<in> fst ` set rest \<longrightarrow>
            a \<notin> set (addrs h1 (getProp h1 t key) tr)) \<Longrightarrow> h' a = h1 a"
    by blast
  have run': "assignKeys (deepCallback n) t s (map fst (e # rest)) h = Some h'"
    using run loop by (simp add: e h1_def)
  have fold': "fold mergeStep (e # rest) cur = fold mergeStep rest cur1"
    by (simp add: e ms cur1_def)
  have same_addrs: "addrs h1 (getProp h1 t key') tr' = addrs h (getProp h t key') tr'"
    if "key' \<noteq> key" "map_of cur key' = Some tr'" for key' tr'
  proof -
    from t2 [OF that(2)] have sub: "set (addrs h (getProp h t key') tr') \<subseteq> B key'"
      by simp
    have ag: "\<forall>a \<in> set (addrs h (getProp h t key') tr'). h1 a = h a"
      using agreeB [OF that(1)] sub by blast
    from addrs_frame [OF ag] that(1) g1 show ?thesis
      by simp
  qed
  have frame': "h' a = h a"
    if a: "a \<noteq> t"
      and out: "\<forall>key' tr. map_of cur key' = Some tr \<longrightarrow> key' \<in> fst ` set (e # rest) \<longrightarrow>
                  a \<notin> set (addrs h (getProp h t key') tr)" for a
  proof -
    have "h' a = h1 a"
    proof (rule pf [OF a], intro allI impI)
      fix key' tr'
      assume m: "map_of cur1 key' = Some tr'" and r: "key' \<in> fst ` set rest"
      then obtain st' where "(key', st') \<in> set rest"
        by auto
      from notin [OF this] have ne: "key' \<noteq> key" .
      with m mc1 have mo: "map_of cur key' = Some tr'"
        by simp
      from out mo r have "a \<notin> set (addrs h (getProp h t key') tr')"
        by simp
      with same_addrs [OF ne mo] show "a \<notin> set (addrs h1 (getProp h1 t key') tr')"
        by simp
    qed
    moreover have "h1 a = h a"
      using out by (intro fr1 [OF a]) (simp add: e)
    ultimately show ?thesis
      by simp
  qed
  have overlay': "props (h' t) = overlayProps (props (h t)) (map (\<lambda>(key, st). (key, getProp h s key)) (e # rest))"
  proof -
    have "map (\<lambda>(key, st). (key, getProp h1 s key)) rest = map (\<lambda>(key, st). (key, getProp h s key)) rest"
      by (simp add: gs)
    with pov show ?thesis
      by (simp add: e h1t vdef [symmetric])
  qed
  have mergedKey: "mergedAt h' t s key st"
  proof (rule mergedAt_frame [OF mA])
    show "repr h1 (getProp h1 t key) X"
      using rX g1 by simp
    have ag: "\<forall>a \<in> set (addrs h (getProp h s key) st). h1 a = h a"
      using agreeS by blast
    from repr_frame [OF ag] ss(1) gs show rs1: "repr h1 (getProp h1 s key) st"
      by simp
    have agree': "h' a = h1 a" if "a \<in> B key" for a
    proof (rule pf, goal_cases)
      case 1
      from that b2(1) [of key] show ?case
        by auto
    next
      case 2
      show ?case
      proof (intro allI impI)
        fix key' tr'
        assume m: "map_of cur1 key' = Some tr'" and r: "key' \<in> fst ` set rest"
        then obtain st' where "(key', st') \<in> set rest"
          by auto
        from notin [OF this] have ne: "key' \<noteq> key" .
        with m mc1 have mo: "map_of cur key' = Some tr'"
          by simp
        from t2 [OF mo] same_addrs [OF ne mo] have "set (addrs h1 (getProp h1 t key') tr') \<subseteq> B key'"
          by simp
        with b1 [OF ne] that show "a \<notin> set (addrs h1 (getProp h1 t key') tr')"
          by blast
      qed
    qed
    have "h' s = h1 s"
    proof (rule pf, goal_cases)
      case 1
      from b2 show ?case by simp
    next
      case 2
      show ?case
      proof (intro allI impI)
        fix key' tr'
        assume m: "map_of cur1 key' = Some tr'" and r: "key' \<in> fst ` set rest"
        then obtain st' where "(key', st') \<in> set rest"
          by auto
        from notin [OF this] have ne: "key' \<noteq> key" .
        with m mc1 have mo: "map_of cur key' = Some tr'"
          by simp
        from t2 [OF mo] same_addrs [OF ne mo] have "set (addrs h1 (getProp h1 t key') tr') \<subseteq> B key'"
          by simp
        with b2(2) [of key'] show "s \<notin> set (addrs h1 (getProp h1 t key') tr')"
          by blast
      qed
    qed
    then show "getProp h' s key = getProp h1 s key"
      by (simp add: getProp_def)
    have nk: "key \<notin> fst ` set (map (\<lambda>(key, st). (key, getProp h1 s key)) rest)"
      using dr by force
    from map_of_overlayProps_notin [OF nk] pov show "getProp h' t key = getProp h1 t key"
      by (simp add: getProp_def)
    have "key \<in> fst ` set (props (h1 t))"
      by (simp add: h1t dom_update)
    with pov keys_overlayProps [of "props (h1 t)"] show "key \<in> set (keys h' t)"
      by (simp add: keys_def)
    have "set (addrs h1 (getProp h1 t key) X) \<subseteq> B key"
      using fX g1 by simp
    moreover have "set (addrs h1 (getProp h1 s key) st) \<subseteq> B key"
      using addrs_frame [OF ag] ss(3) gs by simp
    ultimately show "\<forall>a \<in> set (addrs h1 (getProp h1 t key) X) \<union> set (addrs h1 (getProp h1 s key) st). h' a = h1 a"
      using agree' by blast
  qed
  have post': "loopPost B t s k h cur (e # rest) h'"
    unfolding loopPost_def fold'
  proof (intro conjI allI impI)
    show "kind (h' t) = k" by (rule pk)
    show "keys h' t = map fst (fold mergeStep rest cur1)" by (rule pks)
    show "distinct (map fst (fold mergeStep rest cur1))" by (rule pd)
    show "props (h' t) = overlayProps (props (h t)) (map (\<lambda>(key, st). (key, getProp h s key)) (e # rest))"
      by (rule overlay')
    show "\<forall>(key, st) \<in> set (e # rest). mergedAt h' t s key st"
      using pm mergedKey by (simp add: e)
  next
    fix key' tr'
    assume "map_of (fold mergeStep rest cur1) key' = Some tr'"
    from pr [OF this] show "repr h' (getProp h' t key') tr'"
      and "set (addrs h' (getProp h' t key') tr') \<subseteq> B key'"
      by simp_all
  next
    fix a
    assume "a \<noteq> t"
      and "\<forall>key' tr. map_of cur key' = Some tr \<longrightarrow> key' \<in> fst ` set (e # rest) \<longrightarrow>
              a \<notin> set (addrs h (getProp h t key') tr)"
    then show "h' a = h a"
      by (rule frame')
  qed
  from run' post' show ?case
    by blast
qed

lemma distinct_concat_map_elem: "distinct (concat (map f xs)) \<Longrightarrow> x \<in> set xs \<Longrightarrow> distinct (f x)"
  by (induction xs) auto

lemma distinct_concat_map_disjoint:
  "distinct (concat (map f xs)) \<Longrightarrow> x \<in> set xs \<Longrightarrow> y \<in> set xs \<Longrightarrow> x \<noteq> y \<Longrightarrow>
   set (f x) \<inter> set (f y) = {}"
  by (induction xs) auto

lemma props_from_keys:
  assumes "map fst ps = map fst sps" "distinct (map fst ps)"
  shows "map (\<lambda>(key, st). (key, case map_of ps key of Some v \<Rightarrow> v | None \<Rightarrow> Undefined)) sps = ps"
  using assms
proof (induction ps arbitrary: sps)
  case Nil
  then show ?case by simp
next
  case (Cons p ps)
  then obtain q qs where sps: "sps = q # qs"
    by (cases sps) auto
  with Cons.prems have fq: "fst q = fst p" and rest: "map fst ps = map fst qs"
    by simp_all
  from Cons.prems(2) have np: "fst p \<notin> fst ` set ps" and d: "distinct (map fst ps)"
    by simp_all
  have "map (\<lambda>(key, st). (key, case map_of (p # ps) key of Some v \<Rightarrow> v | None \<Rightarrow> Undefined)) qs =
        map (\<lambda>(key, st). (key, case map_of ps key of Some v \<Rightarrow> v | None \<Rightarrow> Undefined)) qs"
  proof (rule map_cong [OF refl])
    fix x
    assume "x \<in> set qs"
    then have "fst x \<in> fst ` set ps"
      using rest by (metis image_eqI list.set_map)
    with np have "fst x \<noteq> fst p"
      by metis
    then show "(case x of (key, st) \<Rightarrow> (key, case map_of (p # ps) key of Some v \<Rightarrow> v | None \<Rightarrow> Undefined)) =
               (case x of (key, st) \<Rightarrow> (key, case map_of ps key of Some v \<Rightarrow> v | None \<Rightarrow> Undefined))"
      by (cases x) auto
  qed
  with Cons.IH [OF rest d] fq show ?case
    by (cases p; cases q) (simp add: sps)
qed

lemma source_props:
  "keys h s = map fst sps \<Longrightarrow> distinct (map fst sps) \<Longrightarrow>
   map (\<lambda>(key, st). (key, getProp h s key)) sps = props (h s)"
  using props_from_keys [of "props (h s)" sps] by (simp add: keys_def getProp_def)

lemma assignDeep_refines: "depth ts < n \<Longrightarrow> mergePre h t tt sv ts \<Longrightarrow> mergePost n h t tt sv ts"
proof (induction ts arbitrary: n h t tt sv)
  case (Leaf p)
  then obtain n' where n: "n = Suc n'"
    by (cases n) auto
  from Leaf.prems(2) have sv: "\<not> isObject sv" and r: "repr h (Ref t) tt"
    by (simp_all add: mergePre_def)
  from sv have c: "(case sv of Ref s \<Rightarrow> props (h s) | _ \<Rightarrow> []) = []"
    by (cases sv) simp_all
  have m: "merge tt (Leaf p) = tt"
    by (cases tt) simp_all
  show ?case
    unfolding mergePost_def m c
    by (rule exI [of _ h]) (simp add: n assignDeep_not_object [OF sv] r)
next
  case (Node ks sps)
  from Node.prems obtain n' where n: "n = Suc n'"
    by (cases n) auto
  note pre = Node.prems(2) [unfolded mergePre_def]
  from pre repr_NodeD obtain s where sv: "sv = Ref s"
    by blast
  from pre repr_Ref_Node obtain k tps where tt: "tt = Node k tps"
    by blast
  let ?f = "\<lambda>(key, tr). addrs h (getProp h t key) tr"
  let ?g = "\<lambda>(key, st). addrs h (getProp h s key) st"
  from pre sv tt have kt: "kind (h t) = k" and kst: "keys h t = map fst tps" and dt: "distinct (map fst tps)"
    and rt: "\<And>key tr. (key, tr) \<in> set tps \<Longrightarrow> repr h (getProp h t key) tr"
    and kss: "keys h s = map fst sps" and ds: "distinct (map fst sps)"
    and rs: "\<And>key st. (key, st) \<in> set sps \<Longrightarrow> repr h (getProp h s key) st"
    by auto
  from pre sv tt have dist: "distinct (t # concat (map ?f tps) @ s # concat (map ?g sps))"
    by simp
  then have tnt: "t \<notin> set (concat (map ?f tps))" and tns: "t \<notin> set (concat (map ?g sps))"
    and snt: "s \<notin> set (concat (map ?f tps))" and sns: "s \<notin> set (concat (map ?g sps))"
    and ts: "t \<noteq> s" and dT: "distinct (concat (map ?f tps))" and dS: "distinct (concat (map ?g sps))"
    and cross: "set (concat (map ?f tps)) \<inter> set (concat (map ?g sps)) = {}"
    by auto
  define TF where "TF key = (case map_of tps key of Some tr \<Rightarrow> set (addrs h (getProp h t key) tr) | None \<Rightarrow> {})" for key
  define SF where "SF key = (case map_of sps key of Some st \<Rightarrow> set (addrs h (getProp h s key) st) | None \<Rightarrow> {})" for key
  define B where "B key = TF key \<union> SF key" for key
  have TFsub: "TF key \<subseteq> set (concat (map ?f tps))" for key
    by (auto simp: TF_def split: option.splits dest!: map_of_SomeD)
  have SFsub: "SF key \<subseteq> set (concat (map ?g sps))" for key
    by (auto simp: SF_def split: option.splits dest!: map_of_SomeD)
  have TFdis: "TF key \<inter> TF key' = {}" if "key \<noteq> key'" for key key'
  proof (cases "map_of tps key")
    case None
    then show ?thesis by (simp add: TF_def)
  next
    case (Some tr)
    show ?thesis
    proof (cases "map_of tps key'")
      case None
      then show ?thesis by (simp add: TF_def)
    next
      case (Some tr')
      from \<open>map_of tps key = Some tr\<close> Some have "(key, tr) \<in> set tps" "(key', tr') \<in> set tps"
        by (auto dest: map_of_SomeD)
      from distinct_concat_map_disjoint [OF dT this] that \<open>map_of tps key = Some tr\<close> Some
      show ?thesis
        by (simp add: TF_def)
    qed
  qed
  have SFdis: "SF key \<inter> SF key' = {}" if "key \<noteq> key'" for key key'
  proof (cases "map_of sps key")
    case None
    then show ?thesis by (simp add: SF_def)
  next
    case (Some st)
    show ?thesis
    proof (cases "map_of sps key'")
      case None
      then show ?thesis by (simp add: SF_def)
    next
      case (Some st')
      from \<open>map_of sps key = Some st\<close> Some have "(key, st) \<in> set sps" "(key', st') \<in> set sps"
        by (auto dest: map_of_SomeD)
      from distinct_concat_map_disjoint [OF dS this] that \<open>map_of sps key = Some st\<close> Some
      show ?thesis
        by (simp add: SF_def)
    qed
  qed
  have b1: "B key \<inter> B key' = {}" if "key \<noteq> key'" for key key'
    using TFdis [OF that] SFdis [OF that] TFsub [of key] TFsub [of key'] SFsub [of key] SFsub [of key'] cross
    unfolding B_def by blast
  have b2: "t \<notin> B key" "s \<notin> B key" for key
    using TFsub [of key] SFsub [of key] tnt tns snt sns unfolding B_def by blast+
  have lp: "loopPre n' B t s k h tps sps"
    unfolding loopPre_def
  proof (intro conjI allI impI)
    show "kind (h t) = k" "keys h t = map fst tps" "distinct (map fst tps)" "distinct (map fst sps)"
      by (rule kt kst dt ds)+
  next
    fix key tr
    assume m: "map_of tps key = Some tr"
    then show "repr h (getProp h t key) tr"
      by (auto dest: map_of_SomeD intro: rt)
    from m show "set (addrs h (getProp h t key) tr) \<subseteq> B key"
      by (simp add: B_def TF_def)
  next
    fix key tr st
    assume m: "map_of tps key = Some tr" and e: "(key, st) \<in> set sps"
    from m have mem: "(key, tr) \<in> set tps"
      by (auto dest: map_of_SomeD)
    from distinct_concat_map_elem [OF dT mem] show "distinct (addrs h (getProp h t key) tr)"
      by simp
    have "set (addrs h (getProp h t key) tr) \<subseteq> set (concat (map ?f tps))"
      using mem by force
    moreover have "set (addrs h (getProp h s key) st) \<subseteq> set (concat (map ?g sps))"
      using e by force
    ultimately show "set (addrs h (getProp h t key) tr) \<inter> set (addrs h (getProp h s key) st) = {}"
      using cross by blast
  next
    fix key st
    assume e: "(key, st) \<in> set sps"
    show "repr h (getProp h s key) st"
      by (rule rs [OF e])
    from distinct_concat_map_elem [OF dS e] show "distinct (addrs h (getProp h s key) st)"
      by simp
    from e ds have "map_of sps key = Some st"
      by simp
    then show "set (addrs h (getProp h s key) st) \<subseteq> B key"
      by (simp add: B_def SF_def)
    from depth_child [OF e, of ks] Node.prems(1) n show "depth st < n'"
      by simp
  qed
  have "\<exists>h'. assignKeys (deepCallback n') t s (map fst sps) h = Some h' \<and> loopPost B t s k h tps sps h'"
  proof (rule assignKeys_refines [OF b1 b2 ts _ lp])
    fix key st h tc tr sv
    assume e: "(key, st) \<in> set sps" and p: "mergePre h tc tr sv st"
    have "depth st < n'"
      using depth_child [OF e, of ks] Node.prems(1) n by simp
    from Node.IH [of "(key, st)" st n' h tc tr sv, OF _ _ this p] e show "mergePost n' h tc tr sv st"
      by simp
  qed
  then obtain h' where run: "assignKeys (deepCallback n') t s (map fst sps) h = Some h'"
    and post: "loopPost B t s k h tps sps h'"
    by blast
  note p = post [unfolded loopPost_def]
  let ?cur = "fold mergeStep sps tps"
  from p have pk: "kind (h' t) = k" and pks: "keys h' t = map fst ?cur" and pd: "distinct (map fst ?cur)"
    and pov: "props (h' t) = overlayProps (props (h t)) (map (\<lambda>(key, st). (key, getProp h s key)) sps)"
    and pm: "\<forall>(key, st) \<in> set sps. mergedAt h' t s key st"
    by simp_all
  from p have pr: "\<And>key tr. map_of ?cur key = Some tr \<Longrightarrow>
      repr h' (getProp h' t key) tr \<and> set (addrs h' (getProp h' t key) tr) \<subseteq> B key"
    by blast
  from p have pf: "\<And>a. a \<noteq> t \<Longrightarrow>
      (\<forall>key tr. map_of tps key = Some tr \<longrightarrow> key \<in> fst ` set sps \<longrightarrow>
            a \<notin> set (addrs h (getProp h t key) tr)) \<Longrightarrow> h' a = h a"
    by blast
  have Bsub: "B key \<subseteq> set (addrs h (Ref t) tt) \<union> set (addrs h sv (Node ks sps))" for key
    using TFsub [of key] SFsub [of key] unfolding B_def tt sv by auto
  show ?case
    unfolding mergePost_def
  proof (intro exI [of _ h'] conjI allI impI)
    show "assignDeep n h t sv = Some (h', Ref t)"
      using run kss by (simp add: n sv assignDeep_Ref)
  next
    fix a
    assume a: "a \<notin> set (addrs h (Ref t) tt)"
    show "h' a = h a"
    proof (rule pf, goal_cases)
      case 1
      from a tt show ?case by simp
    next
      case 2
      from a tt show ?case
        by (auto dest!: map_of_SomeD)
    qed
  next
    have m: "merge tt (Node ks sps) = Node k ?cur"
      unfolding tt by (rule merge_Node)
    have mem: "map_of ?cur key = Some tr" if "(key, tr) \<in> set ?cur" for key tr
      using that pd by simp
    show "repr h' (Ref t) (merge tt (Node ks sps))"
      unfolding m using pk pks pd pr mem by auto
    show "set (addrs h' (Ref t) (merge tt (Node ks sps))) \<subseteq> set (addrs h (Ref t) tt) \<union> set (addrs h sv (Node ks sps))"
    proof -
      have "set (addrs h' (getProp h' t key) tr) \<subseteq> set (addrs h (Ref t) tt) \<union> set (addrs h sv (Node ks sps))"
        if "(key, tr) \<in> set ?cur" for key tr
        using pr [OF mem [OF that]] Bsub [of key] by blast
      moreover have "t \<in> set (addrs h (Ref t) tt)"
        by (simp add: tt)
      ultimately show ?thesis
        unfolding m by auto
    qed
  next
    show "merged h' t sv (Node ks sps)"
      using pm by (simp add: sv merged_Node_Ref)
  next
    have "h' t = Obj (kind (h' t)) (props (h' t))"
      by simp
    also have "\<dots> = Obj (kind (h t)) (overlayProps (props (h t)) (props (h s)))"
      by (simp add: pk kt pov source_props [OF kss ds])
    finally show "h' t = Obj (kind (h t)) (overlayProps (props (h t)) (case sv of Ref s \<Rightarrow> props (h s) | _ \<Rightarrow> []))"
      by (simp add: sv)
  qed
qed

section \<open>\<^verbatim>\<open>getConfig\<close> on well-formed configurations\<close>

lemma readConfigs_registered: "configs s nm = Some c \<Longrightarrow> readConfigs s nm = Ref c"
  by (simp add: readConfigs_def)

lemma readConfigs_unregistered:
  "ordinaryName s nm \<Longrightarrow> configs s nm = None \<Longrightarrow> readConfigs s nm = Undefined"
  by (simp add: readConfigs_def ordinaryName_def)

lemma registered_ordinaryName: "configs s nm = Some c \<Longrightarrow> ordinaryName s nm"
  by (simp add: ordinaryName_def)

lemma wellFormed_plain: "wellFormed s nm options tc to \<Longrightarrow> kind (initialTarget s nm) \<noteq> FunctionObject"
  by (auto simp: wellFormed_def initialTarget_def split: option.splits)

lemma getConfig_early:
  "ordinaryName s nm \<Longrightarrow> configs s nm = None \<Longrightarrow> options = Undefined \<Longrightarrow>
   getConfig fuel s nm options = Some (s, Undefined)"
  by (simp add: getConfig_def isUndefined_def readConfigs_unregistered)

lemma getConfig_run:
  assumes ord: "ordinaryName s nm" and plain: "kind (initialTarget s nm) \<noteq> FunctionObject"
    and run: "\<not> (configs s nm = None \<and> options = Undefined)"
  shows "getConfig fuel s nm options =
     (case assignDeep fuel ((heap s)(nextAddr s := initialTarget s nm)) (nextAddr s) options of
        None \<Rightarrow> None
      | Some (h', r) \<Rightarrow> Some (\<lparr>heap = h', nextAddr = Suc (nextAddr s), configs = configs s, inherited = inherited s\<rparr>, r))"
proof (cases "configs s nm")
  case None
  with ord have "readConfigs s nm = Undefined"
    by (simp add: readConfigs_unregistered)
  with None run show ?thesis
    by (auto simp: getConfig_def isUndefined_def initialTarget_def clone_def alloc_def
        split: option.splits)
next
  case (Some c)
  then have "readConfigs s nm = Ref c"
    by (simp add: readConfigs_registered)
  with Some plain show ?thesis
    by (auto simp: getConfig_def isUndefined_def initialTarget_def clone_def alloc_def
        split: option.splits)
qed

lemma fresh_target_pre:
  assumes wf: "wellFormed s nm options tc to"
  shows "mergePre ((heap s)(nextAddr s := initialTarget s nm)) (nextAddr s) (initialTree s nm tc) options to"
proof -
  define h where "h = heap s"
  define t where "t = nextAddr s"
  define h1 where "h1 = h(t := initialTarget s nm)"
  have agree: "h1 a = h a" if "a < t" for a
    using that by (simp add: h1_def)
  have h1t: "h1 t = initialTarget s nm"
    by (simp add: h1_def)
  from wf have ro: "repr h options to" and dopt: "distinct (addrs h options to)"
    and lo: "\<forall>a \<in> set (addrs h options to). a < t"
    by (simp_all add: wellFormed_def h_def t_def)
  have ago: "\<forall>a \<in> set (addrs h options to). h1 a = h a"
    using lo agree by blast
  have ro1: "repr h1 options to" and ao1: "addrs h1 options to = addrs h options to"
    using repr_frame [OF ago] addrs_frame [OF ago] ro by simp_all
  have tno: "t \<notin> set (addrs h options to)"
    using lo by auto
  have "mergePre h1 t (initialTree s nm tc) options to"
  proof (cases "configs s nm")
    case None
    then have "h1 t = Obj PlainObject []" "initialTree s nm tc = Node PlainObject []"
      by (simp_all add: h1t initialTarget_def initialTree_def)
    with ro1 ao1 dopt tno show ?thesis
      by (simp add: mergePre_def keys_def)
  next
    case (Some c)
    with wf have rc: "repr h (Ref c) tc" and dc: "distinct (addrs h (Ref c) tc @ addrs h options to)"
      and lc: "\<forall>a \<in> set (addrs h (Ref c) tc). a < t"
      by (simp_all add: wellFormed_def h_def t_def)
    from repr_Ref_Node [OF rc] obtain k tps where tc: "tc = Node k tps"
      by blast
    from Some have it: "h1 t = h c" "initialTree s nm tc = tc"
      by (simp_all add: h1t initialTarget_def initialTree_def h_def)
    have gp: "getProp h1 t key = getProp h c key" for key
      by (simp add: getProp_def it)
    have child: "repr h1 (getProp h1 t key) tr \<and>
                 addrs h1 (getProp h1 t key) tr = addrs h (getProp h c key) tr"
      if e: "(key, tr) \<in> set tps" for key tr
    proof -
      have sub: "set (addrs h (getProp h c key) tr) \<subseteq> set (addrs h (Ref c) tc)"
        unfolding tc by (rule addrs_child_subset [OF e])
      have ag: "\<forall>a \<in> set (addrs h (getProp h c key) tr). h1 a = h a"
        using sub lc agree by blast
      from rc tc e have "repr h (getProp h c key) tr"
        by auto
      with repr_frame [OF ag] addrs_frame [OF ag] gp show ?thesis
        by simp
    qed
    have r1: "repr h1 (Ref t) tc"
      using rc child unfolding tc by (auto simp: it keys_def)
    have "map (\<lambda>(key, tr). addrs h1 (getProp h1 t key) tr) tps =
          map (\<lambda>(key, tr). addrs h (getProp h c key) tr) tps"
      by (rule map_cong [OF refl]) (use child in auto)
    then have a1: "addrs h1 (Ref t) tc = t # tl (addrs h (Ref c) tc)"
      unfolding tc by (simp only: addrs_Node_Ref list.sel)
    have "t \<notin> set (addrs h (Ref c) tc)"
      using lc by auto
    then have tnc: "t \<notin> set (tl (addrs h (Ref c) tc))"
      unfolding tc by simp
    have "distinct (tl (addrs h (Ref c) tc) @ addrs h options to)"
      using dc unfolding tc by simp
    with tnc tno have "distinct (addrs h1 (Ref t) tc @ addrs h1 options to)"
      by (simp add: a1 ao1)
    with r1 ro1 it show ?thesis
      by (simp add: mergePre_def)
  qed
  then show ?thesis
    by (simp add: h1_def h_def t_def)
qed

lemma getConfig_first:
  assumes wf: "wellFormed s nm options tc to" and fuel: "depth to < fuel"
    and run: "\<not> (configs s nm = None \<and> options = Undefined)"
    and ord: "ordinaryName s nm"
  shows "\<exists>h'. getConfig fuel s nm options =
                 Some (\<lparr>heap = h', nextAddr = Suc (nextAddr s), configs = configs s, inherited = inherited s\<rparr>, Ref (nextAddr s)) \<and>
              mergePost fuel ((heap s)(nextAddr s := initialTarget s nm)) (nextAddr s)
                (initialTree s nm tc) options to \<and>
              assignDeep fuel ((heap s)(nextAddr s := initialTarget s nm)) (nextAddr s) options =
                 Some (h', Ref (nextAddr s))"
proof -
  note post = assignDeep_refines [OF fuel fresh_target_pre [OF wf]]
  then obtain h' where "assignDeep fuel ((heap s)(nextAddr s := initialTarget s nm)) (nextAddr s) options
                     = Some (h', Ref (nextAddr s))"
    unfolding mergePost_def by blast
  with post show ?thesis
    by (simp add: getConfig_run [OF ord wellFormed_plain [OF wf] run])
qed

lemma getConfig_result_repr:
  assumes wf: "wellFormed s nm options tc to" and fuel: "depth to < fuel"
    and run: "\<not> (configs s nm = None \<and> options = Undefined)"
    and ord: "ordinaryName s nm"
  shows "\<exists>s' r. getConfig fuel s nm options = Some (s', r) \<and>
                repr (heap s') r (merge (initialTree s nm tc) to)"
proof -
  from getConfig_first [OF wf fuel run ord] obtain h' where
    g: "getConfig fuel s nm options =
          Some (\<lparr>heap = h', nextAddr = Suc (nextAddr s), configs = configs s, inherited = inherited s\<rparr>, Ref (nextAddr s))"
    and p: "mergePost fuel ((heap s)(nextAddr s := initialTarget s nm)) (nextAddr s)
              (initialTree s nm tc) options to"
    and a: "assignDeep fuel ((heap s)(nextAddr s := initialTarget s nm)) (nextAddr s) options =
              Some (h', Ref (nextAddr s))"
    by blast
  from p a have "repr h' (Ref (nextAddr s)) (merge (initialTree s nm tc) to)"
    unfolding mergePost_def by auto
  with g show ?thesis
    by simp
qed

section \<open>A second call of \<^verbatim>\<open>getConfig\<close> with the same arguments\<close>

lemma overlay_lookup:
  "distinct (map fst sp) \<Longrightarrow> map_of sp key = Some sv \<Longrightarrow>
   map_of (overlayProps tp sp) key =
     Some (case map_of tp key of
             Some (Ref tc) \<Rightarrow> (if isObject sv then Ref tc else sv)
           | _ \<Rightarrow> sv)"
proof (induction tp sp rule: overlayProps.induct)
  case (1 tp)
  then show ?case by simp
next
  case (2 tp k v sp)
  show ?case
  proof (cases "k = key")
    case True
    with "2.prems" have v: "v = sv" and n: "key \<notin> fst ` set sp"
      by auto
    from map_of_overlayProps_notin [OF n] True v show ?thesis
      by (simp add: update_conv')
  next
    case False
    with "2.prems" "2.IH" show ?thesis
      by (simp add: update_conv')
  qed
qed

lemma keys_props: "distinct (keys h s) \<Longrightarrow> map (\<lambda>key. (key, getProp h s key)) (keys h s) = props (h s)"
proof -
  assume d: "distinct (keys h s)"
  have "map (\<lambda>key. (key, getProp h s key)) (keys h s) =
        map (\<lambda>(key, st). (key, case map_of (props (h s)) key of Some v \<Rightarrow> v | None \<Rightarrow> Undefined)) (props (h s))"
    by (simp add: keys_def getProp_def case_prod_beta comp_def)
  also have "\<dots> = props (h s)"
    using d by (intro props_from_keys) (simp_all add: keys_def)
  finally show ?thesis .
qed

lemma repr_same_object: "h a = h b \<Longrightarrow> repr h (Ref a) T \<Longrightarrow> repr h (Ref b) T"
  by (cases T) (simp_all add: keys_def getProp_def)

lemma fun_upd_obj: "h(t := Obj (kind (h t)) (props (h t))) = h"
  by (rule ext) simp

lemma assignKeys_overlay_noop:
  assumes noop: "\<And>hx key tc sc. (\<forall>a. a \<noteq> t \<longrightarrow> hx a = h a) \<Longrightarrow> key \<in> set ks \<Longrightarrow>
                   getProp h t key = Ref tc \<Longrightarrow> getProp h s key = Ref sc \<Longrightarrow>
                   assignDeep n hx tc (Ref sc) = Some (hx, Ref tc)"
    and d: "distinct ks" and ts: "t \<noteq> s"
  shows "assignKeys (deepCallback n) t s ks h =
           Some (h(t := Obj (kind (h t))
                   (overlayProps (props (h t)) (map (\<lambda>key. (key, getProp h s key)) ks))))"
  using noop d
proof (induction ks arbitrary: h)
  case Nil
  show ?case
    by (simp add: fun_upd_obj)
next
  case (Cons key ks)
  define sv where "sv = getProp h s key"
  define v where "v = (case map_of (props (h t)) key of
                         Some (Ref tc) \<Rightarrow> (if isObject sv then Ref tc else sv)
                       | _ \<Rightarrow> sv)"
  have cb: "deepCallback n h (getProp h t key) (getProp h s key) = Some (h, v)"
  proof (cases "isObject (getProp h t key) \<and> isObject sv")
    case True
    then obtain tc sc where tc: "getProp h t key = Ref tc" and sc: "sv = Ref sc"
      by (auto simp: isObject_conv)
    from Cons.prems(1) [of h key tc sc] tc sc
    have "assignDeep n h tc (Ref sc) = Some (h, Ref tc)"
      by (simp add: sv_def)
    moreover from tc sc have "v = Ref tc"
      by (auto simp: v_def getProp_def split: option.splits)
    ultimately show ?thesis
      using tc sc by (simp add: deepCallback_objects sv_def)
  next
    case False
    then have "v = sv"
      by (auto simp: v_def getProp_def isObject_conv split: option.splits val.splits)
    with False show ?thesis
      using deepCallback_not_object [of "getProp h t key" sv n h] by (auto simp: sv_def)
  qed
  define h1 where "h1 = putProp h t key v"
  have h1: "h1 = h(t := Obj (kind (h t)) (AList.update key v (props (h t))))"
    by (simp add: h1_def putProp_def)
  have gs: "getProp h1 s key' = getProp h s key'" for key'
    using ts by (simp add: h1 getProp_def)
  have gt: "getProp h1 t key' = getProp h t key'" if "key' \<noteq> key" for key'
    using that by (simp add: h1 getProp_def update_conv')
  have loop: "assignKeys (deepCallback n) t s ks h1 =
          Some (h1(t := Obj (kind (h1 t))
                  (overlayProps (props (h1 t)) (map (\<lambda>key. (key, getProp h1 s key)) ks))))"
  proof (rule Cons.IH)
    show "distinct ks"
      using Cons.prems(2) by simp
    fix hx key' tc sc
    assume ag: "\<forall>a. a \<noteq> t \<longrightarrow> hx a = h1 a" and k: "key' \<in> set ks"
      and g1: "getProp h1 t key' = Ref tc" and g2: "getProp h1 s key' = Ref sc"
    from k Cons.prems(2) have ne: "key' \<noteq> key"
      by auto
    from ag have "\<forall>a. a \<noteq> t \<longrightarrow> hx a = h a"
      by (simp add: h1)
    from Cons.prems(1) [OF this, of key' tc sc] k g1 g2 gt [OF ne] gs
    show "assignDeep n hx tc (Ref sc) = Some (hx, Ref tc)"
      by simp
  qed
  have kind1: "kind (h1 t) = kind (h t)" and props1: "props (h1 t) = AList.update key v (props (h t))"
    by (simp_all add: h1)
  have maps: "map (\<lambda>key. (key, getProp h1 s key)) ks = map (\<lambda>key. (key, getProp h s key)) ks"
    by (simp add: gs)
  have ov: "overlayProps (props (h t)) (map (\<lambda>key. (key, getProp h s key)) (key # ks)) =
            overlayProps (AList.update key v (props (h t))) (map (\<lambda>key. (key, getProp h s key)) ks)"
    unfolding v_def sv_def by simp
  have upd: "h1(t := X) = h(t := X)" for X
    by (simp add: h1)
  from loop have "assignKeys (deepCallback n) t s ks h1 =
      Some (h(t := Obj (kind (h t))
              (overlayProps (props (h t)) (map (\<lambda>key. (key, getProp h s key)) (key # ks)))))"
    by (simp only: kind1 props1 maps ov upd)
  moreover have "assignKeys (deepCallback n) t s (key # ks) h = assignKeys (deepCallback n) t s ks h1"
    using cb by (simp add: h1_def)
  ultimately show ?case
    by (simp add: fun_upd_def)
qed

lemma fresh_target_bounds:
  assumes wf: "wellFormed s nm options tc to"
  shows "\<forall>a \<in> set (addrs ((heap s)(nextAddr s := initialTarget s nm)) (Ref (nextAddr s)) (initialTree s nm tc))
            \<union> set (addrs ((heap s)(nextAddr s := initialTarget s nm)) options to). a \<le> nextAddr s"
    and "\<And>c. configs s nm = Some c \<Longrightarrow>
            c \<notin> set (addrs ((heap s)(nextAddr s := initialTarget s nm)) (Ref (nextAddr s)) (initialTree s nm tc))"
proof -
  define h where "h = heap s"
  define t where "t = nextAddr s"
  define h1 where "h1 = h(t := initialTarget s nm)"
  have agree: "h1 a = h a" if "a < t" for a
    using that by (simp add: h1_def)
  have h1t: "h1 t = initialTarget s nm"
    by (simp add: h1_def)
  from wf have lo: "\<forall>a \<in> set (addrs h options to). a < t"
    by (simp_all add: wellFormed_def h_def t_def)
  have ago: "\<forall>a \<in> set (addrs h options to). h1 a = h a"
    using lo agree by blast
  have ao1: "addrs h1 options to = addrs h options to"
    using addrs_frame [OF ago] by simp
  have "(\<forall>a \<in> set (addrs h1 (Ref t) (initialTree s nm tc)) \<union> set (addrs h1 options to). a \<le> t) \<and>
        (\<forall>c. configs s nm = Some c \<longrightarrow> c \<notin> set (addrs h1 (Ref t) (initialTree s nm tc)))"
  proof (cases "configs s nm")
    case None
    then have "initialTree s nm tc = Node PlainObject []"
      by (simp add: initialTree_def)
    with None ao1 lo show ?thesis
      by auto
  next
    case (Some c)
    with wf have rc: "repr h (Ref c) tc" and dc: "distinct (addrs h (Ref c) tc)"
      and lc: "\<forall>a \<in> set (addrs h (Ref c) tc). a < t"
      by (simp_all add: wellFormed_def h_def t_def)
    from repr_Ref_Node [OF rc] obtain k tps where tc: "tc = Node k tps"
      by blast
    from Some have it: "h1 t = h c" "initialTree s nm tc = tc"
      by (simp_all add: h1t initialTarget_def initialTree_def h_def)
    have gp: "getProp h1 t key = getProp h c key" for key
      by (simp add: getProp_def it)
    have child: "addrs h1 (getProp h1 t key) tr = addrs h (getProp h c key) tr"
      if e: "(key, tr) \<in> set tps" for key tr
    proof -
      have sub: "set (addrs h (getProp h c key) tr) \<subseteq> set (addrs h (Ref c) tc)"
        unfolding tc by (rule addrs_child_subset [OF e])
      have ag: "\<forall>a \<in> set (addrs h (getProp h c key) tr). h1 a = h a"
        using sub lc agree by blast
      with addrs_frame [OF ag] gp show ?thesis
        by simp
    qed
    have "map (\<lambda>(key, tr). addrs h1 (getProp h1 t key) tr) tps =
          map (\<lambda>(key, tr). addrs h (getProp h c key) tr) tps"
      by (rule map_cong [OF refl]) (use child in auto)
    then have a1: "addrs h1 (Ref t) tc = t # tl (addrs h (Ref c) tc)"
      unfolding tc by (simp only: addrs_Node_Ref list.sel)
    have c: "addrs h (Ref c) tc = c # tl (addrs h (Ref c) tc)"
      unfolding tc by simp
    from lc c have "c < t"
      by (metis list.set_intros(1))
    moreover from dc c have "c \<notin> set (tl (addrs h (Ref c) tc))"
      by (metis distinct.simps(2))
    moreover from lc c have "\<forall>a \<in> set (tl (addrs h (Ref c) tc)). a < t"
      by (metis list.set_intros(2))
    ultimately show ?thesis
      using Some ao1 lo by (auto simp: it a1)
  qed
  then show "\<forall>a \<in> set (addrs ((heap s)(nextAddr s := initialTarget s nm)) (Ref (nextAddr s)) (initialTree s nm tc))
            \<union> set (addrs ((heap s)(nextAddr s := initialTarget s nm)) options to). a \<le> nextAddr s"
    and "\<And>c. configs s nm = Some c \<Longrightarrow>
            c \<notin> set (addrs ((heap s)(nextAddr s := initialTarget s nm)) (Ref (nextAddr s)) (initialTree s nm tc))"
    by (simp_all add: h1_def h_def t_def)
qed

lemma getProp_Ref_map_of: "getProp h a key = Ref b \<Longrightarrow> map_of (props (h a)) key = Some (Ref b)"
  by (auto simp: getProp_def split: option.splits)

lemma getConfig_twice:
  assumes wf: "wellFormed s nm options tc to" and fuel: "depth to < fuel"
    and run: "\<not> (configs s nm = None \<and> options = Undefined)"
    and ord: "ordinaryName s nm"
  shows "\<exists>h' h''.
           getConfig fuel s nm options =
             Some (\<lparr>heap = h', nextAddr = Suc (nextAddr s), configs = configs s, inherited = inherited s\<rparr>, Ref (nextAddr s)) \<and>
           getConfig fuel \<lparr>heap = h', nextAddr = Suc (nextAddr s), configs = configs s, inherited = inherited s\<rparr> nm options =
             Some (\<lparr>heap = h'', nextAddr = Suc (Suc (nextAddr s)), configs = configs s, inherited = inherited s\<rparr>,
                   Ref (Suc (nextAddr s))) \<and>
           h'' (Suc (nextAddr s)) = h'' (nextAddr s) \<and>
           repr h'' (Ref (nextAddr s)) (merge (initialTree s nm tc) to)"
proof -
  define t1 where "t1 = nextAddr s"
  define t2 where "t2 = Suc t1"
  define obj0 where "obj0 = initialTarget s nm"
  define tt0 where "tt0 = initialTree s nm tc"
  define h1 where "h1 = (heap s)(t1 := obj0)"
  define T where "T = merge tt0 to"
  from fuel obtain n' where n: "fuel = Suc n'"
    by (cases fuel) auto
  from getConfig_first [OF wf fuel run ord] obtain h' where
    g1: "getConfig fuel s nm options =
          Some (\<lparr>heap = h', nextAddr = Suc t1, configs = configs s, inherited = inherited s\<rparr>, Ref t1)"
    and post: "mergePost fuel h1 t1 tt0 options to"
    and a1: "assignDeep fuel h1 t1 options = Some (h', Ref t1)"
    unfolding t1_def h1_def obj0_def tt0_def by blast
  from post a1 have fr: "\<And>a. a \<notin> set (addrs h1 (Ref t1) tt0) \<Longrightarrow> h' a = h1 a"
    and rp: "repr h' (Ref t1) T"
    and fp: "set (addrs h' (Ref t1) T) \<subseteq> set (addrs h1 (Ref t1) tt0) \<union> set (addrs h1 options to)"
    and mg: "merged h' t1 options to"
    and ov: "h' t1 = Obj (kind (h1 t1)) (overlayProps (props (h1 t1))
                        (case options of Ref b \<Rightarrow> props (h1 b) | _ \<Rightarrow> []))"
    unfolding mergePost_def T_def by auto
  from fresh_target_pre [OF wf] have ro1: "repr h1 options to"
    and dis: "distinct (addrs h1 (Ref t1) tt0 @ addrs h1 options to)"
    unfolding mergePre_def t1_def h1_def obj0_def tt0_def by simp_all
  from fresh_target_bounds [OF wf]
  have bound: "\<And>a. a \<in> set (addrs h1 (Ref t1) tt0) \<union> set (addrs h1 options to) \<Longrightarrow> a \<le> t1"
    and cnot: "\<And>c. configs s nm = Some c \<Longrightarrow> c \<notin> set (addrs h1 (Ref t1) tt0)"
    unfolding t1_def h1_def obj0_def tt0_def by blast+
  have h1t: "h1 t1 = obj0"
    by (simp add: h1_def)
  define s1 where "s1 = \<lparr>heap = h', nextAddr = Suc t1, configs = configs s, inherited = inherited s\<rparr>"
  have run1: "\<not> (configs s1 nm = None \<and> options = Undefined)"
    using run by (simp add: s1_def)
  have it1: "initialTarget s1 nm = obj0"
  proof (cases "configs s nm")
    case None
    then show ?thesis
      by (simp add: initialTarget_def s1_def obj0_def)
  next
    case (Some c)
    from wf Some have "c < t1"
      by (auto simp: wellFormed_def t1_def dest: repr_Ref_Node)
    with fr [OF cnot [OF Some]] have "h' c = heap s c"
      by (simp add: h1_def)
    with Some show ?thesis
      by (simp add: initialTarget_def s1_def obj0_def)
  qed
  define h2 where "h2 = h'(t2 := obj0)"
  have g2: "getConfig fuel s1 nm options =
     (case assignDeep fuel h2 t2 options of
        None \<Rightarrow> None
      | Some (h'', r) \<Rightarrow> Some (\<lparr>heap = h'', nextAddr = Suc t2, configs = configs s, inherited = inherited s\<rparr>, r))"
  proof -
    have ns1: "nextAddr s1 = t2" "heap s1 = h'" "configs s1 = configs s" "inherited s1 = inherited s"
      by (simp_all add: s1_def t2_def)
    have ord1: "ordinaryName s1 nm"
      using ord by (simp add: ordinaryName_def ns1)
    have plain1: "kind (initialTarget s1 nm) \<noteq> FunctionObject"
      using wellFormed_plain [OF wf] by (simp add: it1 obj0_def)
    show ?thesis
      by (simp only: getConfig_run [OF ord1 plain1 run1] ns1 it1 h2_def)
  qed
  have src_same: "h' a = h1 a" if "a \<in> set (addrs h1 options to)" for a
    using that dis by (intro fr) auto
  have a2: "assignDeep fuel h2 t2 options = Some (h2(t2 := h' t1), Ref t2)"
  proof (cases "isObject options")
    case False
    then have "(case options of Ref b \<Rightarrow> props (h1 b) | _ \<Rightarrow> []) = []"
      by (cases options) simp_all
    with ov h1t have "h' t1 = obj0"
      by simp
    then have "h2(t2 := h' t1) = h2"
      by (simp add: h2_def)
    with False show ?thesis
      by (simp add: n assignDeep_not_object)
  next
    case True
    then obtain sa where sa: "options = Ref sa"
      by (auto simp: isObject_conv)
    from repr_Ref_Node ro1 sa obtain ks sps where to: "to = Node ks sps"
      by blast
    from ro1 sa to have kss: "keys h1 sa = map fst sps" and ds: "distinct (map fst sps)"
      and rs: "\<And>key st. (key, st) \<in> set sps \<Longrightarrow> repr h1 (getProp h1 sa key) st"
      by auto
    have sain: "sa \<in> set (addrs h1 options to)"
      by (simp add: sa to)
    from bound sain have sale: "sa \<le> t1"
      by blast
    then have sat2: "t2 \<noteq> sa"
      by (simp add: t2_def)
    have hsa: "h' sa = h1 sa"
      by (rule src_same [OF sain])
    have h2sa: "h2 sa = h1 sa"
      using sat2 hsa by (simp add: h2_def)
    have h2t: "h2 t2 = obj0"
      by (simp add: h2_def)
    have "assignKeys (deepCallback n') t2 sa (keys h2 sa) h2 =
            Some (h2(t2 := Obj (kind (h2 t2))
                    (overlayProps (props (h2 t2)) (map (\<lambda>key. (key, getProp h2 sa key)) (keys h2 sa)))))"
    proof (rule assignKeys_overlay_noop [OF _ _ sat2])
      show "distinct (keys h2 sa)"
        using kss ds by (simp add: keys_def h2sa)
      fix hx key tc sc
      assume ag: "\<forall>a. a \<noteq> t2 \<longrightarrow> hx a = h2 a" and k: "key \<in> set (keys h2 sa)"
        and gt: "getProp h2 t2 key = Ref tc" and gs: "getProp h2 sa key = Ref sc"
      have "keys h2 sa = map fst sps"
        using kss keys_eq [of h2 sa h1, OF h2sa] by simp
      with k have "key \<in> set (map fst sps)"
        by simp
      then obtain st where e: "(key, st) \<in> set sps"
        by auto
      have agx: "hx a = h' a" if "a \<le> t1" for a
        using that ag by (simp add: h2_def t2_def)
      have gs1: "getProp h1 sa key = Ref sc" and gs': "getProp h' sa key = Ref sc"
        using gs by (simp_all add: getProp_def h2sa hsa)
      have mt: "map_of (props obj0) key = Some (Ref tc)"
        using getProp_Ref_map_of [OF gt] by (simp add: h2t)
      have ms: "map_of (props (h1 sa)) key = Some (Ref sc)"
        by (rule getProp_Ref_map_of [OF gs1])
      have dsa: "distinct (map fst (props (h1 sa)))"
        using kss ds by (simp add: keys_def)
      have "map_of (props (h' t1)) key = Some (Ref tc)"
        using overlay_lookup [OF dsa ms, of "props obj0"] mt by (simp add: ov h1t sa)
      then have gt': "getProp h' t1 key = Ref tc"
        by (simp add: getProp_def)
      from mg sa to e have "mergedAt h' t1 sa key st"
        by (auto simp: merged_Node_Ref)
      from mergedAt_Ref [OF this gt'] gs' have m: "merged h' tc (Ref sc) st"
        by simp
      from repr_Ref_Node [OF rp] obtain k cur where Tn: "T = Node k cur"
        by blast
      from getProp_Ref_key [OF gt'] rp Tn obtain trc where c: "(key, trc) \<in> set cur"
        by auto
      with rp Tn gt' have rtc: "repr h' (Ref tc) trc"
        by auto
      have subt: "set (addrs h' (Ref tc) trc) \<subseteq> set (addrs h' (Ref t1) T)"
        using addrs_child_subset [OF c, of h' t1 k] gt' Tn by simp
      have subs: "set (addrs h1 (Ref sc) st) \<subseteq> set (addrs h1 options to)"
        using addrs_child_subset [OF e, of h1 sa ks] gs1 sa to by simp
      have ags: "\<forall>a \<in> set (addrs h1 (Ref sc) st). h' a = h1 a"
        using subs src_same by blast
      from rs [OF e] gs1 have "repr h1 (Ref sc) st"
        by simp
      with repr_frame [OF ags] addrs_frame [OF ags]
      have rsc: "repr h' (Ref sc) st" and asc: "addrs h' (Ref sc) st = addrs h1 (Ref sc) st"
        by simp_all
      have le1: "a \<le> t1" if "a \<in> set (addrs h' (Ref tc) trc) \<union> set (addrs h' (Ref sc) st)" for a
      proof -
        from that subt fp subs asc
        have "a \<in> set (addrs h1 (Ref t1) tt0) \<union> set (addrs h1 options to)"
          by auto
        then show ?thesis
          by (rule bound)
      qed
      have agree: "\<forall>a \<in> set (addrs h' (Ref tc) trc) \<union> set (addrs h' (Ref sc) st). hx a = h' a"
        using le1 agx by blast
      then have agree_s: "\<forall>a \<in> set (addrs h' (Ref sc) st). hx a = h' a"
        by blast
      have "repr hx (Ref sc) st"
        using repr_frame [OF agree_s] rsc by simp
      moreover have "merged hx tc (Ref sc) st"
        by (rule merged_frame [OF rtc rsc agree m])
      moreover have "depth st < n'"
        using depth_child [OF e, of ks] fuel to n by simp
      ultimately show "assignDeep n' hx tc (Ref sc) = Some (hx, Ref tc)"
        by (rule assignDeep_merged_noop)
    qed
    moreover have "map (\<lambda>key. (key, getProp h2 sa key)) (keys h2 sa) = props (h1 sa)"
    proof -
      have "distinct (keys h2 sa)"
        using kss ds by (simp add: keys_def h2sa)
      from keys_props [OF this] show ?thesis
        by (simp add: h2sa)
    qed
    moreover have "h' t1 = Obj (kind obj0) (overlayProps (props obj0) (props (h1 sa)))"
      using ov by (simp add: h1t sa)
    ultimately have "assignKeys (deepCallback n') t2 sa (keys h2 sa) h2 = Some (h2(t2 := h' t1))"
      by (simp add: h2t)
    then show ?thesis
      by (simp add: n sa assignDeep_Ref)
  qed
  define h'' where "h'' = h2(t2 := h' t1)"
  have eq: "h'' t2 = h'' t1"
    by (simp add: h''_def h2_def t2_def)
  have agree'': "\<forall>a \<in> set (addrs h' (Ref t1) T). h'' a = h' a"
  proof
    fix a
    assume "a \<in> set (addrs h' (Ref t1) T)"
    with fp bound have "a \<le> t1"
      by blast
    then show "h'' a = h' a"
      by (simp add: h''_def h2_def t2_def)
  qed
  have rp'': "repr h'' (Ref t1) T"
    using repr_frame [OF agree''] rp by simp
  have g2': "getConfig fuel s1 nm options =
               Some (\<lparr>heap = h'', nextAddr = Suc t2, configs = configs s, inherited = inherited s\<rparr>, Ref t2)"
    using g2 a2 by (simp add: h''_def)
  from g1 g2' eq rp''
  have "getConfig fuel s nm options =
             Some (\<lparr>heap = h', nextAddr = Suc (nextAddr s), configs = configs s, inherited = inherited s\<rparr>, Ref (nextAddr s)) \<and>
           getConfig fuel \<lparr>heap = h', nextAddr = Suc (nextAddr s), configs = configs s, inherited = inherited s\<rparr> nm options =
             Some (\<lparr>heap = h'', nextAddr = Suc (Suc (nextAddr s)), configs = configs s, inherited = inherited s\<rparr>,
                   Ref (Suc (nextAddr s))) \<and>
           h'' (Suc (nextAddr s)) = h'' (nextAddr s) \<and>
           repr h'' (Ref (nextAddr s)) (merge (initialTree s nm tc) to)"
    unfolding s1_def t2_def t1_def T_def tt0_def by simp
  then show ?thesis
    by blast
qed

section \<open>The claims about the select configuration service\<close>

lemmas store_simps =
  registered_def unregistered_def mergeStore_def arrayStore_def scalarStore_def wellFormed_def
  keys_def getProp_def

lemmas name_simps =
  ordinaryName_def registered_def unregistered_def objectPrototype_def objectPrototypeNames_def

lemmas key_simps =
  memberNames_def objectPrototypeNames_def arrayMemberNames_def functionMemberNames_def

lemmas run_simps =
  getConfig_def readConfigs_def clone_def alloc_def isUndefined_def assign_def putProp_def
  assignDeep.simps runtimeStore_def
  numeral_3_eq_3

text \<open>
  C4. Under every name whose registered configuration is \<open>{a: {x: 0, y: 2}}\<close>,
  \<^verbatim>\<open>getConfig\<close> with the options \<open>{a: {x: 1}}\<close> returns \<open>{a: {x: 1, y: 2}}\<close>: both values at
  \<open>a\<close> are objects and are merged key by key, the key \<open>y\<close> of the existing value stays and
  the key \<open>x\<close> of the incoming value wins.
\<close>

theorem getConfig_merges_nested_objects:
  assumes "configs s nm = Some c"
    and "wellFormed s nm options
           (Node PlainObject [(''a'', Node PlainObject [(''x'', Leaf (Num 0)), (''y'', Leaf (Num 2))])])
           (Node PlainObject [(''a'', Node PlainObject [(''x'', Leaf (Num 1))])])"
    and "2 < fuel"
  shows "\<exists>s' r. getConfig fuel s nm options = Some (s', r) \<and>
           repr (heap s') r
             (Node PlainObject [(''a'', Node PlainObject [(''x'', Leaf (Num 1)), (''y'', Leaf (Num 2))])])"
proof -
  have run: "\<not> (configs s nm = None \<and> options = Undefined)"
    using assms(1) by simp
  have d: "depth (Node PlainObject [(''a'', Node PlainObject [(''x'', Leaf (Num 1))])]) < fuel"
    using assms(3) by simp
  from getConfig_result_repr [OF assms(2) d run registered_ordinaryName [OF assms(1)]] assms(1)
  show ?thesis
    by (simp add: initialTree_def mergeStep_def merge_Node)
qed

theorem getConfig_merges_nested_objects_witness:
  "configs (registered mergeStore ''select'') ''select'' = Some 0 \<and>
   wellFormed (registered mergeStore ''select'') ''select'' (Ref 2)
     (Node PlainObject [(''a'', Node PlainObject [(''x'', Leaf (Num 0)), (''y'', Leaf (Num 2))])])
     (Node PlainObject [(''a'', Node PlainObject [(''x'', Leaf (Num 1))])]) \<and>
   (\<exists>s' r. getConfig 3 (registered mergeStore ''select'') ''select'' (Ref 2) = Some (s', r) \<and>
     repr (heap s') r
       (Node PlainObject [(''a'', Node PlainObject [(''x'', Leaf (Num 1)), (''y'', Leaf (Num 2))])]))"
proof (intro conjI)
  show c: "configs (registered mergeStore ''select'') ''select'' = Some 0"
    by (simp add: registered_def)
  show w: "wellFormed (registered mergeStore ''select'') ''select'' (Ref 2)
           (Node PlainObject [(''a'', Node PlainObject [(''x'', Leaf (Num 0)), (''y'', Leaf (Num 2))])])
           (Node PlainObject [(''a'', Node PlainObject [(''x'', Leaf (Num 1))])])"
    by (simp add: store_simps)
  show "\<exists>s' r. getConfig 3 (registered mergeStore ''select'') ''select'' (Ref 2) = Some (s', r) \<and>
     repr (heap s') r
       (Node PlainObject [(''a'', Node PlainObject [(''x'', Leaf (Num 1)), (''y'', Leaf (Num 2))])])"
    by (rule getConfig_merges_nested_objects [OF c w]) simp
qed

text \<open>
  C2, as the claim states it, fails: with \<open>{a: {x: 1}}\<close> registered, \<^verbatim>\<open>getConfig\<close> with the
  options \<open>{a: [1, 2]}\<close> returns, and what it returns is not \<open>{a: [1, 2]}\<close>. An array is an
  object for \<^verbatim>\<open>_.isObject\<close>, so the existing object at \<open>a\<close> is kept and merged into.
\<close>

theorem getConfig_array_does_not_replace_object:
  "getConfig 3 (registered arrayStore ''select'') ''select'' (Ref 2) \<noteq> None \<and>
   \<not> repr (heap (fst (the (getConfig 3 (registered arrayStore ''select'') ''select'' (Ref 2)))))
         (snd (the (getConfig 3 (registered arrayStore ''select'') ''select'' (Ref 2))))
         (Node PlainObject [(''a'', Node ArrayObject [(''0'', Leaf (Num 1)), (''1'', Leaf (Num 2))])])"
  by (simp add: store_simps run_simps)

text \<open>
  C2, amended. Under every name whose registered configuration is \<open>{a: {x: 1}}\<close>,
  \<^verbatim>\<open>getConfig\<close> with the options \<open>{a: [1, 2]}\<close> returns \<open>{a: {x: 1, 0: 1, 1: 2}}\<close>: the
  existing value at \<open>a\<close> is an object, and the elements of the incoming array are merged
  into it under their indices. Where the existing value is not an object, as in
  \<open>{a: 5}\<close>, the incoming array replaces it and the call returns \<open>{a: [1, 2]}\<close>.
\<close>

theorem getConfig_array_merges_into_object:
  "(configs s nm = Some c \<and>
    wellFormed s nm options
      (Node PlainObject [(''a'', Node PlainObject [(''x'', Leaf (Num 1))])])
      (Node PlainObject [(''a'', Node ArrayObject [(''0'', Leaf (Num 1)), (''1'', Leaf (Num 2))])]) \<and>
    2 < fuel \<longrightarrow>
    (\<exists>s' r. getConfig fuel s nm options = Some (s', r) \<and>
       repr (heap s') r
         (Node PlainObject
            [(''a'', Node PlainObject [(''x'', Leaf (Num 1)), (''0'', Leaf (Num 1)), (''1'', Leaf (Num 2))])]))) \<and>
   (configs s nm = Some c \<and>
    wellFormed s nm options
      (Node PlainObject [(''a'', Leaf (Num 5))])
      (Node PlainObject [(''a'', Node ArrayObject [(''0'', Leaf (Num 1)), (''1'', Leaf (Num 2))])]) \<and>
    2 < fuel \<longrightarrow>
    (\<exists>s' r. getConfig fuel s nm options = Some (s', r) \<and>
       repr (heap s') r
         (Node PlainObject [(''a'', Node ArrayObject [(''0'', Leaf (Num 1)), (''1'', Leaf (Num 2))])])))"
proof (intro conjI impI; elim conjE)
  assume c: "configs s nm = Some c" and f: "2 < fuel"
  have run: "\<not> (configs s nm = None \<and> options = Undefined)"
    using c by simp
  have d: "depth (Node PlainObject [(''a'', Node ArrayObject [(''0'', Leaf (Num 1)), (''1'', Leaf (Num 2))])]) < fuel"
    using f by simp
  {
    assume w: "wellFormed s nm options
      (Node PlainObject [(''a'', Node PlainObject [(''x'', Leaf (Num 1))])])
      (Node PlainObject [(''a'', Node ArrayObject [(''0'', Leaf (Num 1)), (''1'', Leaf (Num 2))])])"
    from getConfig_result_repr [OF w d run registered_ordinaryName [OF c]] c
    show "\<exists>s' r. getConfig fuel s nm options = Some (s', r) \<and>
       repr (heap s') r
         (Node PlainObject
            [(''a'', Node PlainObject [(''x'', Leaf (Num 1)), (''0'', Leaf (Num 1)), (''1'', Leaf (Num 2))])])"
      by (simp add: initialTree_def mergeStep_def merge_Node)
  }
  {
    assume w: "wellFormed s nm options
      (Node PlainObject [(''a'', Leaf (Num 5))])
      (Node PlainObject [(''a'', Node ArrayObject [(''0'', Leaf (Num 1)), (''1'', Leaf (Num 2))])])"
    from getConfig_result_repr [OF w d run registered_ordinaryName [OF c]] c
    show "\<exists>s' r. getConfig fuel s nm options = Some (s', r) \<and>
       repr (heap s') r
         (Node PlainObject [(''a'', Node ArrayObject [(''0'', Leaf (Num 1)), (''1'', Leaf (Num 2))])])"
      by (simp add: initialTree_def mergeStep_def merge_Node)
  }
qed

theorem getConfig_array_merges_into_object_witness:
  "(\<exists>s' r. getConfig 3 (registered arrayStore ''select'') ''select'' (Ref 2) = Some (s', r) \<and>
       repr (heap s') r
         (Node PlainObject
            [(''a'', Node PlainObject [(''x'', Leaf (Num 1)), (''0'', Leaf (Num 1)), (''1'', Leaf (Num 2))])])) \<and>
   (\<exists>s' r. getConfig 3 (registered scalarStore ''select'') ''select'' (Ref 2) = Some (s', r) \<and>
       repr (heap s') r
         (Node PlainObject [(''a'', Node ArrayObject [(''0'', Leaf (Num 1)), (''1'', Leaf (Num 2))])]))"
proof (intro conjI)
  have c: "configs (registered h ''select'') ''select'' = Some 0" for h
    by (simp add: registered_def)
  have w1: "wellFormed (registered arrayStore ''select'') ''select'' (Ref 2)
      (Node PlainObject [(''a'', Node PlainObject [(''x'', Leaf (Num 1))])])
      (Node PlainObject [(''a'', Node ArrayObject [(''0'', Leaf (Num 1)), (''1'', Leaf (Num 2))])])"
    by (simp add: store_simps)
  have w2: "wellFormed (registered scalarStore ''select'') ''select'' (Ref 2)
      (Node PlainObject [(''a'', Leaf (Num 5))])
      (Node PlainObject [(''a'', Node ArrayObject [(''0'', Leaf (Num 1)), (''1'', Leaf (Num 2))])])"
    by (simp add: store_simps)
  from getConfig_array_merges_into_object [of "registered arrayStore ''select''" "''select''" 0 "Ref 2" 3] c w1
  show "\<exists>s' r. getConfig 3 (registered arrayStore ''select'') ''select'' (Ref 2) = Some (s', r) \<and>
       repr (heap s') r
         (Node PlainObject
            [(''a'', Node PlainObject [(''x'', Leaf (Num 1)), (''0'', Leaf (Num 1)), (''1'', Leaf (Num 2))])])"
    by simp
  from getConfig_array_merges_into_object [of "registered scalarStore ''select''" "''select''" 0 "Ref 2" 3] c w2
  show "\<exists>s' r. getConfig 3 (registered scalarStore ''select'') ''select'' (Ref 2) = Some (s', r) \<and>
       repr (heap s') r
         (Node PlainObject [(''a'', Node ArrayObject [(''0'', Leaf (Num 1)), (''1'', Leaf (Num 2))])])"
    by simp
qed

text \<open>
  C3 fails on the code at the scenario of C4. Before the call the registered configuration
  is \<open>{a: {x: 0, y: 2}}\<close>; the call with the options \<open>{a: {x: 1}}\<close> returns, and after it the
  registered configuration is \<open>{a: {x: 1, y: 2}}\<close>: the copy made by \<^verbatim>\<open>_.clone\<close> is shallow,
  and the merge writes into the nested object that the copy shares with the registry.
\<close>

theorem getConfig_mutates_registered_config:
  "repr mergeStore (Ref 0)
     (Node PlainObject [(''a'', Node PlainObject [(''x'', Leaf (Num 0)), (''y'', Leaf (Num 2))])]) \<and>
   getConfig 3 (registered mergeStore ''select'') ''select'' (Ref 2) \<noteq> None \<and>
   repr (heap (fst (the (getConfig 3 (registered mergeStore ''select'') ''select'' (Ref 2))))) (Ref 0)
     (Node PlainObject [(''a'', Node PlainObject [(''x'', Leaf (Num 1)), (''y'', Leaf (Num 2))])]) \<and>
   \<not> repr (heap (fst (the (getConfig 3 (registered mergeStore ''select'') ''select'' (Ref 2))))) (Ref 0)
     (Node PlainObject [(''a'', Node PlainObject [(''x'', Leaf (Num 0)), (''y'', Leaf (Num 2))])])"
  by (simp add: store_simps run_simps)




text \<open>
  C8 fails on the code where the options share an object with the registered configuration.
  The registered configuration is \<open>{a: O}\<close>, where \<open>O\<close> is the object \<open>{a: {z: 1}}\<close>, and the
  options are that very object \<open>O\<close>. Both calls return. The first call merges \<open>{z: 1}\<close> into
  \<open>O\<close>, which the shallow copy shares with the registry, so that the options of the second
  call have the key \<open>z\<close> as well: the first result is \<open>{a: O}\<close>, the second is
  \<open>{a: O, z: 1}\<close>, and \<open>O\<close> is \<open>{a: {z: 1}, z: 1}\<close> by then. The two results are not
  deep-equal.
\<close>

theorem getConfig_twice_shared_not_deep_equal:
  "getConfig 3 (registered sharedStore ''select'') ''select'' (Ref 1) \<noteq> None \<and>
   snd (the (getConfig 3 (registered sharedStore ''select'') ''select'' (Ref 1))) = Ref 16 \<and>
   getConfig 3 (fst (the (getConfig 3 (registered sharedStore ''select'') ''select'' (Ref 1))))
     ''select'' (Ref 1) \<noteq> None \<and>
   snd (the (getConfig 3 (fst (the (getConfig 3 (registered sharedStore ''select'') ''select'' (Ref 1))))
     ''select'' (Ref 1))) = Ref 17 \<and>
   repr (heap (fst (the (getConfig 3
           (fst (the (getConfig 3 (registered sharedStore ''select'') ''select'' (Ref 1))))
           ''select'' (Ref 1)))))
     (Ref 16)
     (Node PlainObject
        [(''a'', Node PlainObject
                   [(''a'', Node PlainObject [(''z'', Leaf (Num 1))]), (''z'', Leaf (Num 1))])]) \<and>
   repr (heap (fst (the (getConfig 3
           (fst (the (getConfig 3 (registered sharedStore ''select'') ''select'' (Ref 1))))
           ''select'' (Ref 1)))))
     (Ref 17)
     (Node PlainObject
        [(''a'', Node PlainObject
                   [(''a'', Node PlainObject [(''z'', Leaf (Num 1))]), (''z'', Leaf (Num 1))]),
         (''z'', Leaf (Num 1))]) \<and>
   \<not> repr (heap (fst (the (getConfig 3
           (fst (the (getConfig 3 (registered sharedStore ''select'') ''select'' (Ref 1))))
           ''select'' (Ref 1)))))
     (Ref 17)
     (Node PlainObject
        [(''a'', Node PlainObject
                   [(''a'', Node PlainObject [(''z'', Leaf (Num 1))]), (''z'', Leaf (Num 1))])])"
  by (simp add: registered_def sharedStore_def keys_def getProp_def run_simps)

text \<open>
  Where the options share no object with the registered configuration, two calls give
  deep-equal results. Let the name be one under which a configuration is registered or under
  which the registry inherits nothing, and let the configurations be well-formed, with no
  built-in name among the keys of the options. Then, with enough depth, two calls of
  \<^verbatim>\<open>getConfig\<close> in succession with the same name and the same options both return, and after
  the second call both results are deep-equal to one literal. (The second call finds the
  nested objects of the registered configuration already merged and leaves them as they
  are.)
\<close>

lemma getConfig_twice_unshared_deep_equal:
  assumes wf: "wellFormed s nm options tc to" and fuel: "depth to < fuel"
    and ord: "ordinaryName s nm" and keys: "ordinaryKeys (initialTree s nm tc) to"
  shows "\<exists>s1 r1 s2 r2 t.
           getConfig fuel s nm options = Some (s1, r1) \<and>
           getConfig fuel s1 nm options = Some (s2, r2) \<and>
           repr (heap s2) r1 t \<and> repr (heap s2) r2 t"
proof (cases "configs s nm = None \<and> options = Undefined")
  case True
  then have "getConfig fuel s nm options = Some (s, Undefined)"
    by (simp add: getConfig_early [OF ord])
  moreover have "repr (heap s) Undefined (Leaf Undefined)"
    by simp
  ultimately show ?thesis
    by blast
next
  case False
  from getConfig_twice [OF wf fuel False ord] obtain h' h'' where
    g1: "getConfig fuel s nm options =
             Some (\<lparr>heap = h', nextAddr = Suc (nextAddr s), configs = configs s, inherited = inherited s\<rparr>, Ref (nextAddr s))"
    and g2: "getConfig fuel \<lparr>heap = h', nextAddr = Suc (nextAddr s), configs = configs s, inherited = inherited s\<rparr> nm options =
             Some (\<lparr>heap = h'', nextAddr = Suc (Suc (nextAddr s)), configs = configs s, inherited = inherited s\<rparr>,
                   Ref (Suc (nextAddr s)))"
    and eq: "h'' (Suc (nextAddr s)) = h'' (nextAddr s)"
    and rp: "repr h'' (Ref (nextAddr s)) (merge (initialTree s nm tc) to)"
    by blast
  from repr_same_object [OF eq [symmetric] rp]
  have "repr h'' (Ref (Suc (nextAddr s))) (merge (initialTree s nm tc) to)" .
  with g1 g2 rp show ?thesis
    by (intro exI [of _ "\<lparr>heap = h', nextAddr = Suc (nextAddr s), configs = configs s, inherited = inherited s\<rparr>"]
        exI [of _ "Ref (nextAddr s)"]
        exI [of _ "\<lparr>heap = h'', nextAddr = Suc (Suc (nextAddr s)), configs = configs s, inherited = inherited s\<rparr>"]
        exI [of _ "Ref (Suc (nextAddr s))"]
        exI [of _ "merge (initialTree s nm tc) to"]) simp
qed

lemma getConfig_twice_unshared_deep_equal_example:
  "wellFormed (registered mergeStore ''select'') ''select'' (Ref 2)
     (Node PlainObject [(''a'', Node PlainObject [(''x'', Leaf (Num 0)), (''y'', Leaf (Num 2))])])
     (Node PlainObject [(''a'', Node PlainObject [(''x'', Leaf (Num 1))])]) \<and>
   ordinaryName (registered mergeStore ''select'') ''select'' \<and>
   ordinaryKeys
     (Node PlainObject [(''a'', Node PlainObject [(''x'', Leaf (Num 0)), (''y'', Leaf (Num 2))])])
     (Node PlainObject [(''a'', Node PlainObject [(''x'', Leaf (Num 1))])]) \<and>
   (\<exists>s1 r1 s2 r2 t.
      getConfig 3 (registered mergeStore ''select'') ''select'' (Ref 2) = Some (s1, r1) \<and>
      getConfig 3 s1 ''select'' (Ref 2) = Some (s2, r2) \<and>
      repr (heap s2) r1 t \<and> repr (heap s2) r2 t)"
proof (intro conjI)
  show w: "wellFormed (registered mergeStore ''select'') ''select'' (Ref 2)
     (Node PlainObject [(''a'', Node PlainObject [(''x'', Leaf (Num 0)), (''y'', Leaf (Num 2))])])
     (Node PlainObject [(''a'', Node PlainObject [(''x'', Leaf (Num 1))])])"
    by (simp add: store_simps runtimeStore_def)
  show o: "ordinaryName (registered mergeStore ''select'') ''select''"
    by (simp add: name_simps)
  show k: "ordinaryKeys
     (Node PlainObject [(''a'', Node PlainObject [(''x'', Leaf (Num 0)), (''y'', Leaf (Num 2))])])
     (Node PlainObject [(''a'', Node PlainObject [(''x'', Leaf (Num 1))])])"
    by (simp add: key_simps)
  have i: "initialTree (registered mergeStore ''select'') ''select''
              (Node PlainObject [(''a'', Node PlainObject [(''x'', Leaf (Num 0)), (''y'', Leaf (Num 2))])]) =
            Node PlainObject [(''a'', Node PlainObject [(''x'', Leaf (Num 0)), (''y'', Leaf (Num 2))])]"
    by (simp add: initialTree_def registered_def)
  show "\<exists>s1 r1 s2 r2 t.
      getConfig 3 (registered mergeStore ''select'') ''select'' (Ref 2) = Some (s1, r1) \<and>
      getConfig 3 s1 ''select'' (Ref 2) = Some (s2, r2) \<and>
      repr (heap s2) r1 t \<and> repr (heap s2) r2 t"
    by (rule getConfig_twice_unshared_deep_equal [OF w _ o]) (simp_all add: i k)
qed

end

